theory Spec2Isabelle
  imports Complex_Main "HOL-Library.Sublist"
begin

section \<open>Python strings\<close>

text \<open>
  A Python \<open>str\<close> is a sequence of Unicode code points; it is modelled as a list of
  natural numbers, so that \<open>len\<close> is \<open>length\<close> and the non-ASCII glyphs of the
  patterns in \<open>CONFIG\<close> are single elements.
\<close>

type_synonym pystr = "nat list"

definition u :: "string \<Rightarrow> pystr" where
  "u s = map of_char s"

text \<open>\<open>str.isspace\<close> / the regex class \<open>\s\<close> on \<open>str\<close> patterns: the Unicode white space
  characters (both use the same table in CPython).\<close>

definition isspace :: "nat \<Rightarrow> bool" where
  "isspace c \<longleftrightarrow>
     (9 \<le> c \<and> c \<le> 13) \<or> (28 \<le> c \<and> c \<le> 32) \<or> c = 133 \<or> c = 160 \<or> c = 5760 \<or>
     (8192 \<le> c \<and> c \<le> 8202) \<or> c = 8232 \<or> c = 8233 \<or> c = 8239 \<or> c = 8287 \<or> c = 12288"

text \<open>The regex class \<open>\d\<close> on \<open>str\<close> patterns: Unicode category Nd (decimal digits), given
  as (first code point, number of code points) ranges of the Unicode 14.0 table of
  CPython 3.11. ASCII \<open>0-9\<close> is the first range.\<close>

definition decimal_ranges :: "(nat \<times> nat) list" where
  "decimal_ranges =
    [(48, 10), (1632, 10), (1776, 10), (1984, 10), (2406, 10), (2534, 10), (2662, 10),
     (2790, 10), (2918, 10), (3046, 10), (3174, 10), (3302, 10), (3430, 10), (3558, 10),
     (3664, 10), (3792, 10), (3872, 10), (4160, 10), (4240, 10), (6112, 10), (6160, 10),
     (6470, 10), (6608, 10), (6784, 10), (6800, 10), (6992, 10), (7088, 10), (7232, 10),
     (7248, 10), (42528, 10), (43216, 10), (43264, 10), (43472, 10), (43504, 10),
     (43600, 10), (44016, 10), (65296, 10), (66720, 10), (68912, 10), (69734, 10),
     (69872, 10), (69942, 10), (70096, 10), (70384, 10), (70736, 10), (70864, 10),
     (71248, 10), (71360, 10), (71472, 10), (71904, 10), (72016, 10), (72784, 10),
     (73040, 10), (73120, 10), (92768, 10), (92864, 10), (93008, 10), (120782, 50),
     (123200, 10), (123632, 10), (125264, 10), (130032, 10)]"

definition isdecimal :: "nat \<Rightarrow> bool" where
  "isdecimal c = list_ex (\<lambda>(s, n). s \<le> c \<and> c < s + n) decimal_ranges"

text \<open>\<open>str.strip()\<close> without arguments.\<close>

definition strip :: "pystr \<Rightarrow> pystr" where
  "strip t = rev (dropWhile isspace (rev (dropWhile isspace t)))"

text \<open>\<open>sep.join(parts)\<close>.\<close>

fun join :: "pystr \<Rightarrow> pystr list \<Rightarrow> pystr" where
  "join sep [] = []"
| "join sep [x] = x"
| "join sep (x # y # ys) = x @ sep @ join sep (y # ys)"

text \<open>\<open>text.split('\n')\<close>: the pieces between line feeds (code point 10); never empty.\<close>

fun split_nl :: "pystr \<Rightarrow> pystr list" where
  "split_nl [] = [[]]"
| "split_nl (c # cs) =
     (if c = 10 then [] # split_nl cs
      else (case split_nl cs of [] \<Rightarrow> [[c]] | w # ws \<Rightarrow> (c # w) # ws))"

text \<open>\<open>cell.replace('\n', ' ')\<close>.\<close>

definition replace_nl :: "pystr \<Rightarrow> pystr" where
  "replace_nl t = map (\<lambda>c. if c = 10 then 32 else c) t"

text \<open>\<open>pat in s\<close> on strings: \<open>pat\<close> occurs as a contiguous substring of \<open>s\<close>.\<close>

fun py_in :: "pystr \<Rightarrow> pystr \<Rightarrow> bool" where
  "py_in pat [] = (pat = [])"
| "py_in pat (c # cs) = (prefix pat (c # cs) \<or> py_in pat cs)"

text \<open>\<open>str(n)\<close> / \<open>f'{n}'\<close> for a non-negative integer: its decimal digits.\<close>

fun py_str :: "nat \<Rightarrow> pystr" where
  "py_str n = (if n < 10 then [48 + n] else py_str (n div 10) @ [48 + n mod 10])"

declare py_str.simps [simp del]

section \<open>List patterns (\<open>CONFIG\<close>)\<close>

text \<open>
  Every pattern of \<open>CONFIG\<close> is anchored with \<open>^\<close> and used with \<open>re.match\<close> and
  \<open>re.sub(pattern, '', text)\<close> without flags, so it can only match at position 0. A
  pattern is modelled as a function returning the text after the match (\<open>None\<close>: no
  match). The character classes that follow one another in a pattern are disjoint, so the
  greedy match never backtracks.
\<close>

type_synonym pattern = "pystr \<Rightarrow> pystr option"

definition bullet_glyphs :: "nat list" where
  "bullet_glyphs =
     [8226, 12539, 9679, 9675, 9670, 9671, 9642, 9643, 9632, 9633, 9658, 9656, 8227, 8259]"

text \<open>\<open>^[\s]*[glyphs]\s*\<close>\<close>

definition bullet_pattern1 :: pattern where
  "bullet_pattern1 t =
     (case dropWhile isspace t of
        [] \<Rightarrow> None
      | c # r \<Rightarrow> if c \<in> set bullet_glyphs then Some (dropWhile isspace r) else None)"

text \<open>\<open>^[\s]*[-\*]\s+\<close> (45 is \<open>-\<close>, 42 is \<open>*\<close>)\<close>

definition bullet_pattern2 :: pattern where
  "bullet_pattern2 t =
     (case dropWhile isspace t of
        [] \<Rightarrow> None
      | c # r \<Rightarrow>
          if c = 45 \<or> c = 42 then
            (case r of
               [] \<Rightarrow> None
             | d # r' \<Rightarrow> if isspace d then Some (dropWhile isspace r') else None)
          else None)"

definition bullet_patterns :: "pattern list" where
  "bullet_patterns = [bullet_pattern1, bullet_pattern2]"

text \<open>\<open>^[\s]*(\d+)[\.\<dots>\)]\s*\<close> (46 is \<open>.\<close>, 65289 the full-width \<open>)\<close>, 41 is \<open>)\<close>)\<close>

definition numbered_pattern1 :: pattern where
  "numbered_pattern1 t =
     (let r = dropWhile isspace t in
      if takeWhile isdecimal r = [] then None
      else (case dropWhile isdecimal r of
              [] \<Rightarrow> None
            | c # r' \<Rightarrow>
                if c = 46 \<or> c = 65289 \<or> c = 41 then Some (dropWhile isspace r') else None))"

text \<open>\<open>^[\s]*[\(\<dots>](\d+)[\)\<dots>]\s*\<close> (40 is \<open>(\<close>, 65288 the full-width \<open>(\<close>)\<close>

definition numbered_pattern2 :: pattern where
  "numbered_pattern2 t =
     (case dropWhile isspace t of
        [] \<Rightarrow> None
      | c # r \<Rightarrow>
          if c = 40 \<or> c = 65288 then
            (if takeWhile isdecimal r = [] then None
             else (case dropWhile isdecimal r of
                     [] \<Rightarrow> None
                   | d # r' \<Rightarrow>
                       if d = 41 \<or> d = 65289 then Some (dropWhile isspace r') else None))
          else None)"

text \<open>\<open>^[\s]*([circled 1 .. circled 20])\s*\<close>: the code points 9312 to 9331\<close>

definition numbered_pattern3 :: pattern where
  "numbered_pattern3 t =
     (case dropWhile isspace t of
        [] \<Rightarrow> None
      | c # r \<Rightarrow> if 9312 \<le> c \<and> c \<le> 9331 then Some (dropWhile isspace r) else None)"

definition numbered_patterns :: "pattern list" where
  "numbered_patterns = [numbered_pattern1, numbered_pattern2, numbered_pattern3]"

definition re_match :: "pattern \<Rightarrow> pystr \<Rightarrow> bool" where
  "re_match p t = (p t \<noteq> None)"

definition re_sub :: "pattern \<Rightarrow> pystr \<Rightarrow> pystr" where
  "re_sub p t = (case p t of None \<Rightarrow> t | Some rest \<Rightarrow> rest)"

definition is_bullet_list :: "pystr \<Rightarrow> bool" where
  "is_bullet_list t = list_ex (\<lambda>p. re_match p t) bullet_patterns"

definition is_numbered_list :: "pystr \<Rightarrow> bool" where
  "is_numbered_list t = list_ex (\<lambda>p. re_match p t) numbered_patterns"

definition clean_bullet_text :: "pystr \<Rightarrow> pystr" where
  "clean_bullet_text t = strip (fold re_sub bullet_patterns t)"

definition clean_numbered_text :: "pystr \<Rightarrow> pystr" where
  "clean_numbered_text t = strip (fold re_sub numbered_patterns t)"

section \<open>Python floats\<close>

text \<open>
  Font sizes and coordinates are Python floats, that is IEEE 754 doubles. A double is
  modelled by the real number it stands for, and every operation that rounds in Python
  rounds here: \<open>fl x\<close> is the double nearest to the real \<open>x\<close>, a tie going to the even
  significand (53 bits; below 2 to the power -1022 the spacing stays 2 to the power
  -1074, as for subnormal numbers). A float literal is the double nearest to the written
  decimal, and \<open>a / b\<close>, \<open>a + b\<close> on floats are the exact result rounded by \<open>fl\<close>.
  Infinities and NaN are not modelled: a result beyond the largest double, an infinity in
  Python, is the rounded finite number here.
\<close>

text \<open>The binary logarithm of \<open>n \<ge> 1\<close> rounded down, and the least \<open>k\<close> with \<open>n \<le> 2 ^ k\<close>.\<close>

fun log2n :: "nat \<Rightarrow> nat" where
  "log2n n = (if n < 2 then 0 else Suc (log2n (n div 2)))"

fun clog2 :: "nat \<Rightarrow> nat" where
  "clog2 n = (if n \<le> 1 then 0 else Suc (clog2 ((n + 1) div 2)))"

declare log2n.simps [simp del] clog2.simps [simp del]

text \<open>The binary exponent \<open>e\<close> of a non-zero real \<open>x\<close>: \<open>\<bar>x\<bar>\<close> is at least 2 to the power
  \<open>e\<close> and less than 2 to the power \<open>e + 1\<close>.\<close>

definition exponent :: "real \<Rightarrow> int" where
  "exponent x =
     (if 1 \<le> \<bar>x\<bar> then int (log2n (nat \<lfloor>\<bar>x\<bar>\<rfloor>)) else - int (clog2 (nat \<lceil>1 / \<bar>x\<bar>\<rceil>)))"

text \<open>Rounding to the nearest integer, a tie going to the even one.\<close>

definition round_half_even :: "real \<Rightarrow> int" where
  "round_half_even x =
     (let f = \<lfloor>x\<rfloor>; d = x - of_int f in
      if d < 1 / 2 then f else if 1 / 2 < d then f + 1 else if even f then f else f + 1)"

definition fl :: "real \<Rightarrow> real" where
  "fl x =
     (if x = 0 then 0
      else (let k = 52 - max (exponent x) (- 1022) in
            if 0 \<le> k then of_int (round_half_even (x * 2 ^ nat k)) / 2 ^ nat k
            else of_int (round_half_even (x / 2 ^ nat (- k))) * 2 ^ nat (- k)))"

text \<open>\<open>a / b\<close> on floats (\<open>b\<close> is not zero where the code divides).\<close>

definition fdiv :: "real \<Rightarrow> real \<Rightarrow> real" where
  "fdiv a b = fl (a / b)"

text \<open>
  \<open>sum(xs)\<close> on floats: the running total, starting from the integer 0, is rounded after
  every addition (the plain loop of CPython up to 3.11, the version of the Unicode tables
  above).
\<close>

definition fsum :: "real list \<Rightarrow> real" where
  "fsum xs = foldl (\<lambda>acc x. fl (acc + x)) 0 xs"

text \<open>
  \<open>round(x, 0)\<close> and \<open>round(x, 1)\<close> on a float: the exact value of the double is rounded
  to that many decimals, halves to the even neighbour, and the decimal result is read
  back as the nearest double.
\<close>

definition py_round :: "real \<Rightarrow> real" where
  "py_round x = of_int (round_half_even x)"

definition py_round1 :: "real \<Rightarrow> real" where
  "py_round1 x = fl (of_int (round_half_even (x * 10)) / 10)"

section \<open>Heading levels\<close>

text \<open>
  \<open>get_heading_level(font_size, body_size)\<close>. \<open>not x\<close> holds for \<open>None\<close> and for 0;
  the thresholds are the float literals of \<open>CONFIG['heading_size_ratio']\<close>. A quotient
  beyond the largest double compares with the thresholds as the infinity of Python does.
\<close>

definition h1 :: real where "h1 = fl 1.5"
definition h2 :: real where "h2 = fl 1.3"
definition h3 :: real where "h3 = fl 1.15"

definition falsy :: "real option \<Rightarrow> bool" where
  "falsy x = (case x of None \<Rightarrow> True | Some v \<Rightarrow> v = 0)"

definition get_heading_level :: "real option \<Rightarrow> real option \<Rightarrow> nat option" where
  "get_heading_level font_size body_size =
     (if falsy body_size \<or> falsy font_size then None
      else (let ratio = fdiv (the font_size) (the body_size) in
            if ratio \<ge> h1 then Some 1
            else if ratio \<ge> h2 then Some 2
            else if ratio \<ge> h3 then Some 3
            else None))"

section \<open>Table serializer\<close>

text \<open>
  A table is what \<open>page.extract_tables()\<close> returns: a list of rows, each a list of cells,
  a cell being a string or \<open>None\<close>.
\<close>

type_synonym cell = "pystr option"
type_synonym table = "cell list list"

text \<open>\<open>str(cell) if cell else ''\<close>: \<open>None\<close> and the empty string are falsy.\<close>

definition cell_str :: "cell \<Rightarrow> pystr" where
  "cell_str c = (case c of None \<Rightarrow> [] | Some s \<Rightarrow> if s \<noteq> [] then s else [])"

text \<open>\<open>'| ' + ' | '.join(cells) + ' |'\<close>\<close>

definition render_row :: "pystr list \<Rightarrow> pystr" where
  "render_row cells = u ''| '' @ join (u '' | '') cells @ u '' |''"

text \<open>The cells of the lines appended to \<open>md_lines\<close>: header, separator, data rows.\<close>

definition header_cells :: "cell list \<Rightarrow> pystr list" where
  "header_cells header = map cell_str header"

definition separator_cells :: "cell list \<Rightarrow> pystr list" where
  "separator_cells header = replicate (length header) (u ''---'')"

definition data_cells :: "cell list \<Rightarrow> pystr list" where
  "data_cells row = map replace_nl (map cell_str row)"

definition md_cells :: "table \<Rightarrow> pystr list list" where
  "md_cells t =
     (case t of
        [] \<Rightarrow> []
      | header # rows \<Rightarrow> header_cells header # separator_cells header # map data_cells rows)"

definition table_to_markdown :: "table \<Rightarrow> pystr" where
  "table_to_markdown t =
     (case t of
        [] \<Rightarrow> []
      | header # rows \<Rightarrow>
          if header = [] then [] else join [10] (map render_row (md_cells t)))"

section \<open>Line assembler\<close>

text \<open>
  A character is a dictionary of the page source; every key is read with \<open>c.get(key,
  default)\<close>, so each field is optional.
\<close>

record pdf_char =
  c_text :: "pystr option"
  c_size :: "real option"
  c_top :: "real option"
  c_x0 :: "real option"
  c_fontname :: "pystr option"

definition get_text :: "pdf_char \<Rightarrow> pystr" where
  "get_text c = (case c_text c of None \<Rightarrow> [] | Some s \<Rightarrow> s)"

definition get_size :: "pdf_char \<Rightarrow> real" where
  "get_size c = (case c_size c of None \<Rightarrow> 0 | Some v \<Rightarrow> v)"

definition get_top :: "pdf_char \<Rightarrow> real" where
  "get_top c = (case c_top c of None \<Rightarrow> 0 | Some v \<Rightarrow> v)"

definition get_x0 :: "pdf_char \<Rightarrow> real" where
  "get_x0 c = (case c_x0 c of None \<Rightarrow> 0 | Some v \<Rightarrow> v)"

definition get_fontname :: "pdf_char \<Rightarrow> pystr" where
  "get_fontname c = (case c_fontname c of None \<Rightarrow> [] | Some s \<Rightarrow> s)"

text \<open>\<open>[c.get('size', 0) for c in chars if c.get('size')]\<close>\<close>

definition sizes_of :: "pdf_char list \<Rightarrow> real list" where
  "sizes_of cs = map get_size (filter (\<lambda>c. \<not> falsy (c_size c)) cs)"

text \<open>
  The dictionary \<open>char_lines\<close> (rounded top coordinate to the characters of that line) as
  an association list in insertion order, which is the order of a Python dictionary.
\<close>

fun group_add :: "real \<Rightarrow> pdf_char \<Rightarrow> (real \<times> pdf_char list) list \<Rightarrow> (real \<times> pdf_char list) list" where
  "group_add y c [] = [(y, [c])]"
| "group_add y c ((k, cs) # g) =
     (if k = y then (k, cs @ [c]) # g else (k, cs) # group_add y c g)"

definition char_lines :: "pdf_char list \<Rightarrow> (real \<times> pdf_char list) list" where
  "char_lines cs = fold (\<lambda>c g. group_add (py_round (get_top c)) c g) cs []"

record line_info =
  l_text :: pystr
  font_size :: "real option"
  is_bold :: bool

text \<open>\<open>any('Bold' in fn or 'bold' in fn for fn in font_names)\<close>\<close>

definition bold_name :: "pystr \<Rightarrow> bool" where
  "bold_name fn = (py_in (u ''Bold'') fn \<or> py_in (u ''bold'') fn)"

text \<open>
  The body of the loop over the sorted keys, for the characters \<open>cs\<close> of one key;
  \<open>None\<close> is the \<open>continue\<close> of a line that is empty after stripping. \<open>sort_key\<close> is a
  stable sort, as Python's \<open>sorted\<close>.
\<close>

definition make_line :: "pdf_char list \<Rightarrow> line_info option" where
  "make_line cs =
     (let line_chars = sort_key get_x0 cs;
          line_text = strip (concat (map get_text line_chars))
      in if line_text = [] then None
         else
           (let line_sizes = sizes_of line_chars;
                avg_size = (if line_sizes \<noteq> []
                            then Some (fdiv (fsum line_sizes) (real (length line_sizes)))
                            else None);
                font_names = map get_fontname line_chars
            in Some \<lparr>l_text = line_text, font_size = avg_size,
                     is_bold = list_ex bold_name font_names\<rparr>))"

text \<open>
  A page of the page source: its characters, the result of \<open>extract_text()\<close> and the
  result of \<open>extract_tables()\<close>. The result of \<open>find_tables()\<close> only fills
  \<open>table_bboxes\<close>, which is never read, and is left out.
\<close>

record page =
  chars :: "pdf_char list"
  page_text :: "pystr option"
  page_tables :: "table list"

text \<open>The plain-text fallback of a page without characters.\<close>

definition plain_lines :: "pystr \<Rightarrow> line_info list" where
  "plain_lines t =
     map (\<lambda>l. \<lparr>l_text = strip l, font_size = None, is_bold = False\<rparr>)
         (filter (\<lambda>l. strip l \<noteq> []) (split_nl t))"

text \<open>
  The keys of \<open>char_lines\<close> are distinct, so iterating over the sorted keys and looking
  each one up is iterating over the entries sorted by key.
\<close>

definition extract_text_with_formatting :: "page \<Rightarrow> real option \<Rightarrow> line_info list" where
  "extract_text_with_formatting p body_size =
     (case page_text p of
        None \<Rightarrow> []
      | Some t \<Rightarrow>
          if t = [] then []
          else if chars p = [] then plain_lines t
          else List.map_filter (\<lambda>(y, cs). make_line cs) (sort_key fst (char_lines (chars p))))"

section \<open>Sequence reassembler\<close>

datatype kind = Table | Paragraph | Heading | Bullet | Numbered | Bold

datatype list_type = LBullet | LNumbered

type_synonym block = "kind \<times> pystr"

record loop_state =
  md_parts :: "block list"
  current_list_type :: "list_type option"
  numbered_counter :: nat
  paragraph_lines :: "pystr list"

text \<open>
  \<open>if paragraph_lines: md_parts.append(('paragraph', ' '.join(paragraph_lines)));
  paragraph_lines = []\<close>
\<close>

definition flush :: "loop_state \<Rightarrow> loop_state" where
  "flush s =
     (if paragraph_lines s \<noteq> []
      then s\<lparr>md_parts := md_parts s @ [(Paragraph, join [32] (paragraph_lines s))],
             paragraph_lines := []\<rparr>
      else s)"

definition emit :: "block \<Rightarrow> loop_state \<Rightarrow> loop_state" where
  "emit b s = s\<lparr>md_parts := md_parts s @ [b]\<rparr>"

text \<open>One iteration of the loop over \<open>lines\<close> in \<open>process_page\<close>.\<close>

definition step :: "real option \<Rightarrow> line_info \<Rightarrow> loop_state \<Rightarrow> loop_state" where
  "step body_size li s =
     (let t = l_text li in
      case get_heading_level (font_size li) body_size of
        Some lvl \<Rightarrow>
          emit (Heading, replicate lvl 35 @ [32] @ t) ((flush s)\<lparr>current_list_type := None\<rparr>)
      | None \<Rightarrow>
          if is_bullet_list t then
            (emit (Bullet, u ''- '' @ clean_bullet_text t) (flush s))
              \<lparr>current_list_type := Some LBullet\<rparr>
          else if is_numbered_list t then
            (let s1 = flush s;
                 n = (if current_list_type s1 \<noteq> Some LNumbered then 0
                      else numbered_counter s1) + 1
             in (emit (Numbered, py_str n @ u ''. '' @ clean_numbered_text t)
                   (s1\<lparr>numbered_counter := n\<rparr>))
                  \<lparr>current_list_type := Some LNumbered\<rparr>)
          else
            (let s1 = s\<lparr>current_list_type := None\<rparr> in
             if is_bold li \<and> length t < 100
             then emit (Bold, u ''**'' @ t @ u ''**'') (flush s1)
             else s1\<lparr>paragraph_lines := paragraph_lines s1 @ [t]\<rparr>))"

definition table_parts :: "table list \<Rightarrow> block list" where
  "table_parts ts =
     map (\<lambda>md. (Table, md)) (filter (\<lambda>md. md \<noteq> []) (map table_to_markdown ts))"

definition run_lines :: "real option \<Rightarrow> line_info list \<Rightarrow> loop_state \<Rightarrow> loop_state" where
  "run_lines body_size ls s = flush (fold (step body_size) ls s)"

definition start_state :: "block list \<Rightarrow> loop_state" where
  "start_state parts =
     \<lparr>md_parts = parts, current_list_type = None, numbered_counter = 0,
      paragraph_lines = []\<rparr>"

definition process_page :: "page \<Rightarrow> real option \<Rightarrow> block list" where
  "process_page p body_size =
     md_parts (run_lines body_size (extract_text_with_formatting p body_size)
                 (start_state (table_parts (page_tables p))))"

section \<open>Typography sampler and document composer\<close>

text \<open>
  \<open>Counter(...)\<close> as an association list in insertion order, and
  \<open>most_common(1)[0][0]\<close>: the first key, in insertion order, among those with the
  highest count.
\<close>

fun counter_add :: "real \<Rightarrow> (real \<times> nat) list \<Rightarrow> (real \<times> nat) list" where
  "counter_add x [] = [(x, 1)]"
| "counter_add x ((k, n) # g) =
     (if k = x then (k, n + 1) # g else (k, n) # counter_add x g)"

definition counter :: "real list \<Rightarrow> (real \<times> nat) list" where
  "counter xs = fold counter_add xs []"

fun max_first :: "real \<times> nat \<Rightarrow> (real \<times> nat) list \<Rightarrow> real \<times> nat" where
  "max_first best [] = best"
| "max_first best (x # xs) = max_first (if snd best < snd x then x else best) xs"

text \<open>
  The body size of \<open>convert_pdf_to_markdown\<close>. The counter of a non-empty list is not
  empty, so its first case is never reached when \<open>all_sizes\<close> is non-empty.
\<close>

definition body_size_of :: "page list \<Rightarrow> real" where
  "body_size_of pages =
     (let all_sizes = concat (map (\<lambda>p. sizes_of (chars p)) pages) in
      if all_sizes \<noteq> []
      then (case counter (map py_round1 all_sizes) of
              [] \<Rightarrow> 12
            | x # xs \<Rightarrow> fst (max_first x xs))
      else 12)"

text \<open>The lines appended to \<open>md_output\<close> for the parts of one page.\<close>

fun compose :: "kind option \<Rightarrow> block list \<Rightarrow> pystr list" where
  "compose prev_type [] = []"
| "compose prev_type ((part_type, content) # parts) =
     (if prev_type \<noteq> None \<and> prev_type \<noteq> Some part_type
         \<and> (part_type = Heading \<or> part_type = Paragraph \<or> part_type = Table)
      then [[]] else [])
     @ content # compose (Some part_type) parts"

definition page_output :: "real option \<Rightarrow> nat \<Rightarrow> nat \<times> page \<Rightarrow> pystr list" where
  "page_output body_size n ip =
     (case ip of (page_num, p) \<Rightarrow>
        compose None (process_page p body_size) @ (if page_num < n then [[]] else []))"

definition convert_pdf_to_markdown :: "page list \<Rightarrow> pystr" where
  "convert_pdf_to_markdown pages =
     (let body_size = Some (body_size_of pages);
          md_output = concat (map (page_output body_size (length pages))
                                  (zip [1 ..< Suc (length pages)] pages))
      in join [10] md_output)"

section \<open>Notions used to state the properties\<close>

text \<open>
  The branch of the loop body of \<open>process_page\<close> that a line takes, in the order in
  which the branches are tested.
\<close>

datatype line_class = CHeading nat | CBullet | CNumbered | CEmphasized | CParagraph

definition classify :: "real option \<Rightarrow> line_info \<Rightarrow> line_class" where
  "classify body_size li =
     (case get_heading_level (font_size li) body_size of
        Some lvl \<Rightarrow> CHeading lvl
      | None \<Rightarrow>
          if is_bullet_list (l_text li) then CBullet
          else if is_numbered_list (l_text li) then CNumbered
          else if is_bold li \<and> length (l_text li) < 100 then CEmphasized
          else CParagraph)"

text \<open>The blocks that \<open>process_page\<close> emits for a sequence of lines, tables apart.\<close>

definition text_blocks :: "real option \<Rightarrow> line_info list \<Rightarrow> block list" where
  "text_blocks body_size ls = md_parts (run_lines body_size ls (start_state []))"

text \<open>The Numbered blocks with the ordinals 1, 2, ... for a sequence of lines.\<close>

definition numbered_blocks :: "line_info list \<Rightarrow> block list" where
  "numbered_blocks ls =
     map (\<lambda>i. (Numbered, py_str (Suc i) @ u ''. '' @ clean_numbered_text (l_text (ls ! i))))
         [0 ..< length ls]"

text \<open>
  The specification's reading of the bold flag: the font identifier contains \<open>bold\<close> in
  any casing. Only the capital letters A to Z have a lower-case form among the letters of
  \<open>bold\<close>.
\<close>

definition lower :: "nat \<Rightarrow> nat" where
  "lower c = (if 65 \<le> c \<and> c \<le> 90 then c + 32 else c)"

definition bold_caseless :: "pystr \<Rightarrow> bool" where
  "bold_caseless fn = py_in (u ''bold'') (map lower fn)"

text \<open>The kinds of block that carry no typographic information.\<close>

definition plain_kind :: "block \<Rightarrow> bool" where
  "plain_kind b = (fst b = Paragraph \<or> fst b = Bullet \<or> fst b = Numbered)"

text \<open>A page is blank when it has no characters, no tables and no plain text.\<close>

definition blank_page :: "page \<Rightarrow> bool" where
  "blank_page p =
     (chars p = [] \<and> page_tables p = [] \<and> (page_text p = None \<or> page_text p = Some []))"

text \<open>The key under which the line assembler files a character: its rounded top.\<close>

definition line_key :: "pdf_char \<Rightarrow> real" where
  "line_key c = py_round (get_top c)"

text \<open>
  The invariant of the dictionary \<open>char_lines\<close> after the characters \<open>seen\<close>: one entry
  per key, holding the characters with that key in their original order.
\<close>

definition grouped :: "pdf_char list \<Rightarrow> (real \<times> pdf_char list) list \<Rightarrow> bool" where
  "grouped seen g \<longleftrightarrow>
     distinct (map fst g) \<and> fst ` set g = line_key ` set seen
     \<and> (\<forall>(k, cs) \<in> set g. cs = filter (\<lambda>c. line_key c = k) seen)"

text \<open>The kinds of the list blocks among some blocks, in order.\<close>

definition list_kind :: "kind \<Rightarrow> bool" where
  "list_kind k = (k = Bullet \<or> k = Numbered)"

definition list_kinds :: "block list \<Rightarrow> kind list" where
  "list_kinds bl = filter list_kind (map fst bl)"

definition list_line_kinds :: "real option \<Rightarrow> line_info list \<Rightarrow> kind list" where
  "list_line_kinds bs ls =
     concat (map (\<lambda>l. case classify bs l of
                           CBullet \<Rightarrow> [Bullet]
                         | CNumbered \<Rightarrow> [Numbered]
                         | _ \<Rightarrow> [])
                 ls)"

text \<open>
  States that agree on everything the output depends on: they may differ in the counter
  only while the current list type is not numbered, when the counter is reset before it
  is read.
\<close>

definition same_output :: "loop_state \<Rightarrow> loop_state \<Rightarrow> bool" where
  "same_output s t \<longleftrightarrow>
     md_parts s = md_parts t \<and> current_list_type s = current_list_type t
     \<and> paragraph_lines s = paragraph_lines t
     \<and> (current_list_type s = Some LNumbered \<longrightarrow> numbered_counter s = numbered_counter t)"

section \<open>Example inputs\<close>

definition plain_line :: "string \<Rightarrow> line_info" where
  "plain_line t = \<lparr>l_text = u t, font_size = None, is_bold = False\<rparr>"

definition numbered_page :: page where
  "numbered_page =
     \<lparr>chars = [],
      page_text = Some (u ''Intro'' @ [10] @ u ''1. First'' @ [10] @ u ''3. Second'' @ [10]
                        @ u ''7. Third''),
      page_tables = []\<rparr>"

definition paragraph_page :: page where
  "paragraph_page =
     \<lparr>chars = [],
      page_text = Some (u ''- a'' @ [10] @ u ''foo'' @ [10] @ u ''bar'' @ [10] @ u ''1. x''),
      page_tables = []\<rparr>"

definition list_page :: page where
  "list_page =
     \<lparr>chars = [], page_text = Some (u ''- a'' @ [10] @ u ''- b''), page_tables = []\<rparr>"

definition bold_upper_page :: page where
  "bold_upper_page =
     \<lparr>chars = [\<lparr>c_text = Some (u ''x''), c_size = Some 12, c_top = Some 10, c_x0 = Some 0,
                c_fontname = Some (u ''Arial-BOLD'')\<rparr>],
      page_text = Some (u ''x''), page_tables = []\<rparr>"

definition bold_title_page :: page where
  "bold_title_page =
     \<lparr>chars = [\<lparr>c_text = Some (u ''x''), c_size = Some 12, c_top = Some 10, c_x0 = Some 0,
                c_fontname = Some (u ''Arial-Bold'')\<rparr>],
      page_text = Some (u ''x''), page_tables = []\<rparr>"

text \<open>A page without characters, plain text or tables.\<close>

definition empty_page :: page where
  "empty_page = \<lparr>chars = [], page_text = None, page_tables = []\<rparr>"

section \<open>The rounding of floats\<close>

lemmas float_defs = fl_def fdiv_def fsum_def exponent_def round_half_even_def log2n.simps
  clog2.simps py_round_def py_round1_def

text \<open>
  \<open>fl x\<close> is a double next to \<open>x\<close>: with \<open>e\<close> the binary exponent of \<open>x\<close>, it is an
  integer multiple of 2 to the power \<open>e - 52\<close>, the spacing of the doubles from 2 to the
  power \<open>e\<close> on, and it is within half this spacing of \<open>x\<close>.
\<close>

lemma round_half_even_near: "\<bar>of_int (round_half_even x) - x\<bar> \<le> 1 / 2"
proof -
  let ?f = "\<lfloor>x\<rfloor>"
  let ?d = "x - of_int ?f"
  have d: "0 \<le> ?d" "?d < 1" by linarith+
  consider "?d < 1 / 2" | "1 / 2 < ?d" | "?d = 1 / 2" by linarith
  then show ?thesis
  proof cases
    case 1
    then have "round_half_even x = ?f" by (simp add: round_half_even_def Let_def)
    with 1 d show ?thesis by simp
  next
    case 2
    then have "round_half_even x = ?f + 1" by (simp add: round_half_even_def Let_def)
    with 2 d show ?thesis by simp
  next
    case 3
    then have "round_half_even x = ?f \<or> round_half_even x = ?f + 1"
      by (simp add: round_half_even_def Let_def)
    with 3 show ?thesis by auto
  qed
qed

lemma log2n_bounds: "1 \<le> n \<Longrightarrow> 2 ^ log2n n \<le> n \<and> n < 2 * 2 ^ log2n n"
proof (induction n rule: log2n.induct)
  case (1 n)
  show ?case
  proof (cases "n < 2")
    case True
    with 1 have "n = 1" by simp
    then show ?thesis by (simp add: log2n.simps)
  next
    case False
    then have "1 \<le> n div 2" by simp
    with 1 False have ih: "2 ^ log2n (n div 2) \<le> n div 2 \<and> n div 2 < 2 * 2 ^ log2n (n div 2)"
      by simp
    have l: "log2n n = Suc (log2n (n div 2))" using False by (subst log2n.simps) simp
    from ih have "2 * 2 ^ log2n (n div 2) \<le> n" "n < 2 * (2 * 2 ^ log2n (n div 2))" by linarith+
    then show ?thesis unfolding l by simp
  qed
qed

lemma clog2_bounds: "2 \<le> n \<Longrightarrow> 2 ^ clog2 n < 2 * n \<and> n \<le> 2 ^ clog2 n"
proof (induction n rule: clog2.induct)
  case (1 n)
  let ?m = "(n + 1) div 2"
  have l: "clog2 n = Suc (clog2 ?m)" using 1(2) by (subst clog2.simps) simp
  show ?case
  proof (cases "?m \<le> 1")
    case True
    with 1(2) have "n = 2" by linarith
    then show ?thesis by (simp add: clog2.simps)
  next
    case False
    then have "2 \<le> ?m" by simp
    with 1 have ih: "2 ^ clog2 ?m < 2 * ?m \<and> ?m \<le> 2 ^ clog2 ?m" by simp
    from ih have up: "n \<le> 2 * 2 ^ clog2 ?m" by linarith
    have lo: "(2::nat) * 2 ^ clog2 ?m < 2 * n"
    proof (cases "even n")
      case True
      then have "2 * ?m = n" by (auto elim: evenE)
      with ih show ?thesis by linarith
    next
      case False
      then have m: "2 * ?m = n + 1" by (auto elim: oddE)
      with ih have le: "(2::nat) ^ clog2 ?m \<le> n" by linarith
      have "(2::nat) ^ clog2 ?m \<noteq> n"
      proof
        assume eq: "(2::nat) ^ clog2 ?m = n"
        with False have "odd ((2::nat) ^ clog2 ?m)" by simp
        then have "clog2 ?m = 0" by simp
        with eq 1(2) show False by simp
      qed
      with le show ?thesis by linarith
    qed
    from lo up show ?thesis unfolding l by simp
  qed
qed

lemma exponent_bounds_ge1:
  assumes "1 \<le> \<bar>x\<bar>"
  shows "2 ^ nat (exponent x) \<le> \<bar>x\<bar> \<and> \<bar>x\<bar> < 2 * 2 ^ nat (exponent x) \<and> 0 \<le> exponent x"
proof -
  let ?n = "nat \<lfloor>\<bar>x\<bar>\<rfloor>"
  have n1: "1 \<le> ?n" using assms by linarith
  have e: "exponent x = int (log2n ?n)" using assms by (simp add: exponent_def)
  from log2n_bounds [OF n1] have b: "2 ^ log2n ?n \<le> ?n" "?n < 2 * 2 ^ log2n ?n" by simp_all
  have "real (2 ^ log2n ?n) \<le> real ?n" using b(1) by (rule of_nat_mono)
  also have "real ?n \<le> \<bar>x\<bar>" using assms by linarith
  finally have lo: "2 ^ log2n ?n \<le> \<bar>x\<bar>" by simp
  have "?n + 1 \<le> 2 * 2 ^ log2n ?n" using b(2) by simp
  then have "real (?n + 1) \<le> real (2 * 2 ^ log2n ?n)" by (rule of_nat_mono)
  moreover have "\<bar>x\<bar> < real (?n + 1)" using assms by linarith
  ultimately have hi: "\<bar>x\<bar> < 2 * 2 ^ log2n ?n" by simp
  from lo hi show ?thesis by (simp add: e)
qed

lemma exponent_bounds_lt1:
  assumes "x \<noteq> 0" "\<bar>x\<bar> < 1"
  shows "1 \<le> \<bar>x\<bar> * 2 ^ nat (- exponent x) \<and> \<bar>x\<bar> * 2 ^ nat (- exponent x) < 2 \<and> exponent x < 0"
proof -
  define y where "y = 1 / \<bar>x\<bar>"
  define n where "n = nat \<lceil>y\<rceil>"
  define k where "k = clog2 n"
  have a: "0 < \<bar>x\<bar>" using assms by simp
  have y1: "1 < y" using assms a by (simp add: y_def)
  have ny: "y \<le> real n" "real n - 1 < y" using y1 unfolding n_def by linarith+
  have n2: "2 \<le> n" using y1 unfolding n_def by linarith
  have e: "exponent x = - int k" using assms by (simp add: exponent_def k_def n_def y_def)
  from clog2_bounds [OF n2] have b: "2 ^ k < 2 * n" "n \<le> 2 ^ k" by (simp_all add: k_def)
  have k1: "1 \<le> k"
  proof (rule ccontr)
    assume "\<not> 1 \<le> k"
    then have "k = 0" by simp
    with b(2) have "n \<le> 1" by simp
    with n2 show False by linarith
  qed
  have "y \<le> real n" by (rule ny)
  also have "real n \<le> real (2 ^ k)" using b(2) by (rule of_nat_mono)
  finally have yk: "y \<le> 2 ^ k" by simp
  have xy: "\<bar>x\<bar> * y = 1" using a by (simp add: y_def)
  have "\<bar>x\<bar> * y \<le> \<bar>x\<bar> * 2 ^ k" using yk a by (simp add: mult_left_mono)
  then have lo: "1 \<le> \<bar>x\<bar> * 2 ^ k" by (simp only: xy)
  obtain j where j: "k = Suc j" using k1 by (cases k) simp_all
  have "(2::nat) ^ j < n" using b(1) by (simp add: j)
  then have "2 ^ j + 1 \<le> n" by simp
  then have "real (2 ^ j + 1) \<le> real n" by (rule of_nat_mono)
  then have "2 ^ j \<le> real n - 1" by simp
  also have "real n - 1 < y" by (rule ny)
  finally have jy: "2 ^ j < y" .
  have "\<bar>x\<bar> * 2 ^ j < \<bar>x\<bar> * y" using jy a by (simp add: mult_strict_left_mono)
  then have "\<bar>x\<bar> * 2 ^ j < 1" by (simp only: xy)
  then have hi: "\<bar>x\<bar> * 2 ^ k < 2" by (simp add: j)
  from lo hi k1 show ?thesis by (simp add: e)
qed

lemma powi_neg_nat: "(2::real) powi (- int n) = 1 / 2 ^ n"
  by (simp add: power_int_minus field_simps)

lemma powi_nat: "(2::real) powi (int n) = 2 ^ n"
  by simp

lemma exponent_bounds:
  assumes "x \<noteq> 0"
  shows "2 powi exponent x \<le> \<bar>x\<bar> \<and> \<bar>x\<bar> < 2 powi (exponent x + 1)"
proof (cases "1 \<le> \<bar>x\<bar>")
  case True
  define n where "n = nat (exponent x)"
  from exponent_bounds_ge1 [OF True]
  have b: "2 ^ n \<le> \<bar>x\<bar>" "\<bar>x\<bar> < 2 * 2 ^ n" and pos: "0 \<le> exponent x"
    by (simp_all add: n_def)
  have e0: "exponent x = int n" using pos by (simp add: n_def)
  have e1: "exponent x + 1 = int (Suc n)" using pos by (simp add: n_def)
  have p1: "(2::real) powi exponent x = 2 ^ n" unfolding e0 by (rule powi_nat)
  have p2: "(2::real) powi (exponent x + 1) = 2 * 2 ^ n" unfolding e1 powi_nat by simp
  from b show ?thesis unfolding p1 p2 by simp
next
  case False
  then have lt: "\<bar>x\<bar> < 1" by simp
  define k where "k = nat (- exponent x)"
  from exponent_bounds_lt1 [OF assms lt]
  have b: "1 \<le> \<bar>x\<bar> * 2 ^ k" "\<bar>x\<bar> * 2 ^ k < 2" and neg: "exponent x < 0"
    by (simp_all add: k_def)
  have e: "exponent x = - int k" using neg by (simp add: k_def)
  obtain j where j: "k = Suc j" using neg by (cases k) (simp_all add: k_def)
  have p1: "(2::real) powi exponent x = 1 / 2 ^ k"
    unfolding e by (rule powi_neg_nat)
  have e1: "exponent x + 1 = - int j" by (simp add: e j)
  have p2: "(2::real) powi (exponent x + 1) = 2 / 2 ^ k"
    unfolding e1 powi_neg_nat by (simp add: j)
  from b show ?thesis unfolding p1 p2 by (simp add: field_simps)
qed

lemma fl_nearest:
  assumes "x \<noteq> 0" "- 1022 \<le> exponent x"
  shows "\<exists>m. fl x = of_int m * 2 powi (exponent x - 52)
             \<and> \<bar>fl x - x\<bar> \<le> 2 powi (exponent x - 53)"
proof -
  define k where "k = 52 - exponent x"
  have mx: "max (exponent x) (- 1022) = exponent x" using assms(2) by simp
  show ?thesis
  proof (cases "0 \<le> k")
    case True
    define s where "s = x * 2 ^ nat k"
    define m where "m = round_half_even s"
    have f: "fl x = of_int m / 2 ^ nat k"
      using assms(1) True by (simp add: fl_def mx k_def Let_def m_def s_def)
    have near: "\<bar>of_int m - s\<bar> \<le> 1 / 2" unfolding m_def by (rule round_half_even_near)
    have p1: "(2::real) powi (exponent x - 52) = 1 / 2 ^ nat k"
    proof -
      have eq: "exponent x - 52 = - int (nat k)" using True by (simp add: k_def)
      show ?thesis unfolding eq by (rule powi_neg_nat)
    qed
    have p2: "(2::real) powi (exponent x - 53) = 1 / 2 / 2 ^ nat k"
    proof -
      have eq: "exponent x - 53 = - int (Suc (nat k))" using True by (simp add: k_def)
      show ?thesis unfolding eq powi_neg_nat by simp
    qed
    have "fl x - x = (of_int m - s) / 2 ^ nat k" by (simp add: f s_def field_simps)
    then have "\<bar>fl x - x\<bar> = \<bar>of_int m - s\<bar> / 2 ^ nat k" by simp
    also have "\<dots> \<le> (1 / 2) / 2 ^ nat k" using near by (intro divide_right_mono) simp_all
    finally have "\<bar>fl x - x\<bar> \<le> 2 powi (exponent x - 53)" by (simp only: p2)
    moreover have "fl x = of_int m * 2 powi (exponent x - 52)" by (simp add: f p1)
    ultimately show ?thesis by blast
  next
    case False
    define j where "j = nat (- k)"
    define s where "s = x / 2 ^ j"
    define m where "m = round_half_even s"
    have f: "fl x = of_int m * 2 ^ j"
      using assms(1) False by (simp add: fl_def mx k_def Let_def m_def s_def j_def)
    have near: "\<bar>of_int m - s\<bar> \<le> 1 / 2" unfolding m_def by (rule round_half_even_near)
    have ej: "exponent x - 52 = int j" using False by (simp add: k_def j_def)
    have j1: "1 \<le> j" using False by (simp add: k_def j_def)
    have p1: "(2::real) powi (exponent x - 52) = 2 ^ j" unfolding ej by (rule powi_nat)
    have p2: "(2::real) powi (exponent x - 53) = 2 ^ j / 2"
    proof -
      obtain i where i: "j = Suc i" using j1 by (cases j) simp_all
      have eq: "exponent x - 53 = int i" using ej i by simp
      show ?thesis unfolding eq powi_nat by (simp add: i)
    qed
    have "fl x - x = (of_int m - s) * 2 ^ j" by (simp add: f s_def field_simps)
    then have "\<bar>fl x - x\<bar> = \<bar>of_int m - s\<bar> * 2 ^ j" by (simp add: abs_mult)
    also have "\<dots> \<le> (1 / 2) * 2 ^ j" using near by (intro mult_right_mono) simp_all
    finally have "\<bar>fl x - x\<bar> \<le> 2 powi (exponent x - 53)" by (simp add: p2)
    moreover have "fl x = of_int m * 2 powi (exponent x - 52)" by (simp add: f p1)
    ultimately show ?thesis by blast
  qed
qed

text \<open>
  The values of CPython at some sizes: the quotients 11.7 / 9.0 = 1.2999999999999998,
  13.2 / 8.8 = 1.4999999999999998 and 15.6 / 12 = 1.3, the mean of seven sizes 15.6, which
  is 15.599999999999998, and \<open>round(10.35, 1)\<close> = 10.3.
\<close>

lemma float_examples:
  "fl 1.3 = 5854679515581645 / 4503599627370496"
  "fdiv (fl 11.7) 9 = 1463669878895411 / 1125899906842624"
  "fdiv (fl 13.2) (fl 8.8) = 6755399441055743 / 4503599627370496"
  "fdiv (fl 15.6) 12 = 5854679515581645 / 4503599627370496"
  "fdiv (fsum [fl 15.6, fl 15.6, fl 15.6, fl 15.6, fl 15.6, fl 15.6, fl 15.6]) 7
     = 4391009636686233 / 281474976710656"
  "py_round1 (fl 10.35) = fl 10.3"
  "py_round1 (fl 2.25) = fl 2.2"
  "py_round 2.5 = 2" "py_round 3.5 = 4"
  by (simp_all add: float_defs)

lemma heading_examples:
  "get_heading_level (Some (fl 13.2)) (Some (fl 8.8)) = Some 2"
  "get_heading_level (Some (fl 11.7)) (Some 9) = Some 3"
  by (simp_all add: get_heading_level_def falsy_def h1_def h2_def h3_def float_defs)

section \<open>Heading thresholds\<close>

lemma threshold_values:
  "h1 = 3 / 2" "h2 = 5854679515581645 / 4503599627370496"
  "h3 = 2589569785738035 / 2251799813685248"
  by (simp_all add: h1_def h2_def h3_def float_defs)

text \<open>
  C3, as stated, fails at a boundary. The ratio that is compared is the quotient rounded
  to a double, and the thresholds 1.3 and 1.15 are the doubles nearest to these decimals.
  For the sizes written 11.7 and 9.0 the ratio of the written sizes is exactly 1.3, but
  the quotient of the two doubles rounds to 1.2999999999999998 and the level is 3, not 2.
  For the sizes written 15.6 and 12 the exact ratio of the two doubles is below 1.3, but
  the quotient rounds to the double 1.3 and the level is 2, not 3.
\<close>

theorem heading_boundary_counterexample:
  "(117 / 10) / 9 = (13 / 10 :: real)
   \<and> get_heading_level (Some (fl (117 / 10))) (Some 9) = Some 3
   \<and> fl (156 / 10) / 12 < (13 / 10 :: real)
   \<and> get_heading_level (Some (fl (156 / 10))) (Some 12) = Some 2"
  by (simp add: get_heading_level_def falsy_def h1_def h2_def h3_def float_defs)

text \<open>
  C3, amended. For a line with a defined average size \<open>f\<close> and a positive body size
  \<open>b\<close>, the heading level is decided by inclusive, descending thresholds on the ratio
  as it is computed, the quotient \<open>f / b\<close> rounded to the nearest double, against the
  doubles nearest to 1.5, 1.3 and 1.15: at least the first gives level 1, else at least
  the second gives level 2, else at least the third gives level 3, else no heading. A
  computed ratio equal to a threshold gives the higher level, and an undefined average
  size never gives a heading.
\<close>

theorem heading_level_thresholds:
  assumes "0 < b"
  shows "get_heading_level (Some f) (Some b) =
           (if fl (f / b) \<ge> 3 / 2 then Some 1
            else if fl (f / b) \<ge> 5854679515581645 / 4503599627370496 then Some 2
            else if fl (f / b) \<ge> 2589569785738035 / 2251799813685248 then Some 3
            else None)
         \<and> (fl (f / b) = fl 1.5 \<longrightarrow> get_heading_level (Some f) (Some b) = Some 1)
         \<and> (fl (f / b) = fl 1.3 \<longrightarrow> get_heading_level (Some f) (Some b) = Some 2)
         \<and> (fl (f / b) = fl 1.15 \<longrightarrow> get_heading_level (Some f) (Some b) = Some 3)
         \<and> get_heading_level None (Some b) = None"
proof -
  have nz: "b \<noteq> 0" using assms by simp
  have z: "fl 0 = 0" by (simp add: fl_def)
  have gen: "get_heading_level (Some f) (Some b) =
           (if fl (f / b) \<ge> 3 / 2 then Some 1
            else if fl (f / b) \<ge> 5854679515581645 / 4503599627370496 then Some 2
            else if fl (f / b) \<ge> 2589569785738035 / 2251799813685248 then Some 3
            else None)"
    using nz
    by (cases "f = 0") (simp_all add: get_heading_level_def falsy_def fdiv_def z threshold_values)
  have v: "fl 1.5 = 3 / 2" "fl 1.3 = 5854679515581645 / 4503599627370496"
    "fl 1.15 = 2589569785738035 / 2251799813685248"
    using threshold_values by (simp_all add: h1_def h2_def h3_def)
  have b1: "fl (f / b) = fl 1.5 \<longrightarrow> get_heading_level (Some f) (Some b) = Some 1"
  proof
    assume "fl (f / b) = fl 1.5"
    then have "fl (f / b) = 3 / 2" by (simp only: v)
    then show "get_heading_level (Some f) (Some b) = Some 1" by (simp add: gen)
  qed
  have b2: "fl (f / b) = fl 1.3 \<longrightarrow> get_heading_level (Some f) (Some b) = Some 2"
  proof
    assume "fl (f / b) = fl 1.3"
    then have "fl (f / b) = 5854679515581645 / 4503599627370496" by (simp only: v)
    then show "get_heading_level (Some f) (Some b) = Some 2" by (simp add: gen)
  qed
  have b3: "fl (f / b) = fl 1.15 \<longrightarrow> get_heading_level (Some f) (Some b) = Some 3"
  proof
    assume "fl (f / b) = fl 1.15"
    then have "fl (f / b) = 2589569785738035 / 2251799813685248" by (simp only: v)
    then show "get_heading_level (Some f) (Some b) = Some 3" by (simp add: gen)
  qed
  have un: "get_heading_level None (Some b) = None"
    by (simp add: get_heading_level_def falsy_def)
  from gen b1 b2 b3 un show ?thesis by blast
qed

theorem heading_level_thresholds_witness:
  "(0::real) < 12
   \<and> get_heading_level (Some 24) (Some 12) = Some 1
   \<and> get_heading_level (Some 18) (Some 12) = Some 1
   \<and> get_heading_level (Some (fl 15.6)) (Some 12) = Some 2
   \<and> get_heading_level (Some (fl 13.8)) (Some 12) = Some 3
   \<and> get_heading_level (Some 12) (Some 12) = None
   \<and> get_heading_level None (Some 12) = None"
proof -
  have p: "(0::real) < 12" by simp
  from heading_level_thresholds [OF p, of 24] heading_level_thresholds [OF p, of 18]
    heading_level_thresholds [OF p, of "fl 15.6"] heading_level_thresholds [OF p, of "fl 13.8"]
    heading_level_thresholds [OF p, of 12]
  show ?thesis by (simp add: float_defs)
qed

section \<open>Table serializer properties\<close>

lemmas str_defs = u_def strip_def isspace_def replace_nl_def

lemmas table_defs = table_to_markdown_def md_cells_def header_cells_def separator_cells_def
  data_cells_def render_row_def cell_str_def table_parts_def

lemma render_row_nonempty: "render_row cells \<noteq> []"
  by (simp add: render_row_def u_def)

lemma join_nonempty: "x \<noteq> [] \<Longrightarrow> join sep (x # xs) \<noteq> []"
  by (cases xs) simp_all

lemma table_to_markdown_nonempty:
  "header \<noteq> [] \<Longrightarrow> table_to_markdown (header # rows) \<noteq> []"
  by (simp add: table_to_markdown_def md_cells_def join_nonempty render_row_nonempty)

text \<open>
  C4, as stated, fails: a grid of a single non-empty header row and no data rows is
  serialized to the header line and the separator line, and \<open>process_page\<close> emits a table
  block for it.
\<close>

theorem header_only_table_counterexample:
  "table_to_markdown [[Some (u ''a'')]] = u ''| a |'' @ [10] @ u ''| --- |''
   \<and> process_page \<lparr>chars = [], page_text = None, page_tables = [[[Some (u ''a'')]]]\<rparr> (Some 12)
       = [(Table, u ''| a |'' @ [10] @ u ''| --- |'')]"
  by (simp add: table_defs str_defs process_page_def run_lines_def start_state_def flush_def
      extract_text_with_formatting_def)

text \<open>
  C4, amended. A grid with no rows, or whose header row is empty, produces no table block
  (whatever its data rows). A grid of a single non-empty header row and no data rows does
  produce a table block: the header line followed by the separator line.
\<close>

theorem table_block_guard:
  "((t = [] \<or> (\<exists>rows. t = [] # rows)) \<longrightarrow>
       table_to_markdown t = [] \<and> table_parts [t] = [])
   \<and> (\<forall>header. header \<noteq> [] \<and> t = [header] \<longrightarrow>
         table_to_markdown t
           = render_row (header_cells header) @ [10] @ render_row (separator_cells header)
         \<and> table_parts [t] = [(Table, table_to_markdown t)])"
proof (intro conjI impI allI)
  assume "t = [] \<or> (\<exists>rows. t = [] # rows)"
  then show "table_to_markdown t = []" by (auto simp: table_to_markdown_def)
  then show "table_parts [t] = []" by (simp add: table_parts_def)
next
  fix header assume h: "header \<noteq> [] \<and> t = [header]"
  then show "table_to_markdown t
           = render_row (header_cells header) @ [10] @ render_row (separator_cells header)"
    by (simp add: table_to_markdown_def md_cells_def)
  from h have "table_to_markdown t \<noteq> []" using table_to_markdown_nonempty by simp
  then show "table_parts [t] = [(Table, table_to_markdown t)]" by (simp add: table_parts_def)
qed

theorem table_block_guard_witness:
  "table_to_markdown [] = [] \<and> table_parts [[]] = []
   \<and> table_to_markdown [[], [Some (u ''x'')]] = [] \<and> table_parts [[[], [Some (u ''x'')]]] = []
   \<and> table_parts [[[Some (u ''a'')]]] = [(Table, u ''| a |'' @ [10] @ u ''| --- |'')]"
  using table_block_guard [of "[]"] table_block_guard [of "[[], [Some (u ''x'')]]"]
    table_block_guard [of "[[Some (u ''a'')]]"]
  by (simp add: header_cells_def separator_cells_def render_row_def cell_str_def u_def)

text \<open>
  C5, as stated, fails: a data row with fewer cells than the header is rendered with its
  own number of cells; nothing pads it to the header's width.
\<close>

theorem short_row_counterexample:
  "table_to_markdown [[Some (u ''a''), Some (u ''b'')], [Some (u ''c'')]]
     = u ''| a | b |'' @ [10] @ u ''| --- | --- |'' @ [10] @ u ''| c |''
   \<and> map length (md_cells [[Some (u ''a''), Some (u ''b'')], [Some (u ''c'')]]) = [2, 2, 1]"
  by (simp add: table_defs str_defs)

text \<open>
  C5, amended. For every grid with a non-empty header row, the fragment is the rendered
  header line, separator line and data lines; the header and separator lines have the
  header's column count, and every data line has as many cells as its own source row
  (a row shorter than the header is rendered shorter, without any failure). A missing
  (\<open>None\<close>) or empty cell is rendered as the empty string, in its place, not omitted.
\<close>

theorem table_rows_keep_own_width:
  assumes "header \<noteq> []"
  shows "table_to_markdown (header # rows) = join [10] (map render_row (md_cells (header # rows)))
    \<and> map length (md_cells (header # rows)) = length header # length header # map length rows
    \<and> (\<forall>j < length header. md_cells (header # rows) ! 0 ! j = cell_str (header ! j))
    \<and> (\<forall>i < length rows. \<forall>j < length (rows ! i).
          md_cells (header # rows) ! (i + 2) ! j = replace_nl (cell_str (rows ! i ! j)))
    \<and> cell_str None = [] \<and> cell_str (Some []) = []"
  using assms
  by (simp add: table_to_markdown_def md_cells_def header_cells_def separator_cells_def
      data_cells_def cell_str_def comp_def)

theorem table_rows_keep_own_width_witness:
  "[Some (u ''a''), None] \<noteq> []
   \<and> map length (md_cells [[Some (u ''a''), None], [None], [Some (u ''c''), Some [], Some (u ''d'')]])
       = [2, 2, 1, 3]
   \<and> md_cells [[Some (u ''a''), None], [None], [Some (u ''c''), Some [], Some (u ''d'')]] ! 2 ! 0 = []"
  using table_rows_keep_own_width
    [of "[Some (u ''a''), None]" "[[None], [Some (u ''c''), Some [], Some (u ''d'')]]"]
  by (simp add: md_cells_def header_cells_def separator_cells_def data_cells_def cell_str_def
      replace_nl_def)

text \<open>
  C6. The line feed inside a cell of a data row is replaced by a space, but a line feed
  inside a header cell is kept: the fragment for the header \<open>a\nb\<close> and the data row
  \<open>c\nd\<close> has the header cell spread over two lines.
\<close>

theorem header_newline_kept:
  "table_to_markdown [[Some (u ''a'' @ [10] @ u ''b'')], [Some (u ''c'' @ [10] @ u ''d'')]]
     = u ''| a'' @ [10] @ u ''b |'' @ [10] @ u ''| --- |'' @ [10] @ u ''| c d |''"
  by (simp add: table_defs str_defs)

section \<open>The loop of \<open>process_page\<close> only appends\<close>

lemma flush_prefix:
  "flush (s\<lparr>md_parts := pre @ md_parts s\<rparr>) = (flush s)\<lparr>md_parts := pre @ md_parts (flush s)\<rparr>"
  by (simp add: flush_def)

lemma step_prefix:
  "step bs li (s\<lparr>md_parts := pre @ md_parts s\<rparr>)
     = (step bs li s)\<lparr>md_parts := pre @ md_parts (step bs li s)\<rparr>"
  by (simp add: step_def flush_def emit_def Let_def split: option.splits)

lemma fold_step_prefix:
  "fold (step bs) ls (s\<lparr>md_parts := pre @ md_parts s\<rparr>)
     = (fold (step bs) ls s)\<lparr>md_parts := pre @ md_parts (fold (step bs) ls s)\<rparr>"
proof (induction ls arbitrary: s)
  case Nil
  show ?case by simp
next
  case (Cons l ls)
  have "fold (step bs) (l # ls) (s\<lparr>md_parts := pre @ md_parts s\<rparr>)
        = fold (step bs) ls ((step bs l s)\<lparr>md_parts := pre @ md_parts (step bs l s)\<rparr>)"
    by (simp add: step_prefix)
  also have "\<dots> = (fold (step bs) ls (step bs l s))
                     \<lparr>md_parts := pre @ md_parts (fold (step bs) ls (step bs l s))\<rparr>"
    by (rule Cons.IH)
  finally show ?case by simp
qed

lemma run_lines_prefix:
  "md_parts (run_lines bs ls (start_state parts)) = parts @ text_blocks bs ls"
proof -
  have "start_state parts = (start_state [])\<lparr>md_parts := parts @ md_parts (start_state [])\<rparr>"
    by (simp add: start_state_def)
  then have "run_lines bs ls (start_state parts)
      = (run_lines bs ls (start_state []))
          \<lparr>md_parts := parts @ md_parts (run_lines bs ls (start_state []))\<rparr>"
    by (simp only: run_lines_def fold_step_prefix flush_prefix)
  then show ?thesis by (simp add: text_blocks_def)
qed

lemma process_page_split:
  "process_page p bs
     = table_parts (page_tables p) @ text_blocks bs (extract_text_with_formatting p bs)"
  by (simp add: process_page_def run_lines_prefix)

lemma flush_no_table:
  "list_all (\<lambda>b. fst b \<noteq> Table) (md_parts s)
   \<Longrightarrow> list_all (\<lambda>b. fst b \<noteq> Table) (md_parts (flush s))"
  by (simp add: flush_def)

lemma step_no_table:
  "list_all (\<lambda>b. fst b \<noteq> Table) (md_parts s)
   \<Longrightarrow> list_all (\<lambda>b. fst b \<noteq> Table) (md_parts (step bs li s))"
  by (simp add: step_def flush_def emit_def Let_def split: option.splits)

lemma fold_step_no_table:
  "list_all (\<lambda>b. fst b \<noteq> Table) (md_parts s)
   \<Longrightarrow> list_all (\<lambda>b. fst b \<noteq> Table) (md_parts (fold (step bs) ls s))"
  by (induction ls arbitrary: s) (simp_all add: step_no_table)

lemma text_blocks_no_table: "list_all (\<lambda>b. fst b \<noteq> Table) (text_blocks bs ls)"
  by (simp add: text_blocks_def run_lines_def flush_no_table fold_step_no_table start_state_def)

lemma table_parts_all_table: "list_all (\<lambda>b. fst b = Table) (table_parts ts)"
  by (simp add: table_parts_def list_all_iff)

text \<open>
  C10. The blocks of a page are its table blocks, in the order of the tables, followed by
  the blocks made from its lines; the first part holds only table blocks and the second
  part holds none, wherever the tables lie on the page.
\<close>

theorem tables_before_text:
  "process_page p bs
     = table_parts (page_tables p) @ text_blocks bs (extract_text_with_formatting p bs)
   \<and> list_all (\<lambda>b. fst b = Table) (table_parts (page_tables p))
   \<and> list_all (\<lambda>b. fst b \<noteq> Table) (text_blocks bs (extract_text_with_formatting p bs))"
  by (simp add: process_page_split text_blocks_no_table table_parts_all_table)

section \<open>Pages without character geometry\<close>

lemmas pattern_defs = is_bullet_list_def is_numbered_list_def clean_bullet_text_def
  clean_numbered_text_def bullet_patterns_def numbered_patterns_def re_match_def re_sub_def
  bullet_pattern1_def bullet_pattern2_def numbered_pattern1_def numbered_pattern2_def
  numbered_pattern3_def bullet_glyphs_def isdecimal_def decimal_ranges_def

lemmas loop_defs = process_page_def run_lines_def start_state_def flush_def step_def emit_def
  get_heading_level_def falsy_def text_blocks_def table_parts_def

lemma flush_plain:
  "list_all plain_kind (md_parts s) \<Longrightarrow> list_all plain_kind (md_parts (flush s))"
  by (simp add: flush_def plain_kind_def)

lemma step_plain:
  assumes "font_size li = None" "\<not> is_bold li" "list_all plain_kind (md_parts s)"
  shows "list_all plain_kind (md_parts (step bs li s))"
proof -
  have "get_heading_level (font_size li) bs = None"
    using assms(1) by (simp add: get_heading_level_def falsy_def)
  then show ?thesis
    using assms(2,3) flush_plain [of s]
    by (simp add: step_def emit_def Let_def plain_kind_def)
qed

lemma fold_step_plain:
  "\<forall>l \<in> set ls. font_size l = None \<and> \<not> is_bold l \<Longrightarrow> list_all plain_kind (md_parts s)
   \<Longrightarrow> list_all plain_kind (md_parts (fold (step bs) ls s))"
  by (induction ls arbitrary: s) (simp_all add: step_plain)

lemma plain_lines_unformatted: "\<forall>l \<in> set (plain_lines t). font_size l = None \<and> \<not> is_bold l"
  by (auto simp: plain_lines_def)

text \<open>
  C8, as stated, fails: the lines of a page without characters still go through the bullet
  and numbered patterns, so such a page can produce Bullet and Numbered blocks. Here the
  plain text is \<open>Intro\<close>, \<open>- item\<close>, \<open>7) other\<close> on three lines.
\<close>

theorem fallback_page_list_counterexample:
  "process_page \<lparr>chars = [], page_text = Some (u ''Intro'' @ [10] @ u ''- item'' @ [10] @ u ''7) other''),
       page_tables = []\<rparr> (Some 12)
     = [(Paragraph, u ''Intro''), (Bullet, u ''- item''), (Numbered, u ''1. other'')]"
  by (simp add: extract_text_with_formatting_def plain_lines_def loop_defs pattern_defs str_defs
      py_str.simps)

text \<open>
  C8, amended. For every page that has plain text but no characters, the lines are the
  stripped non-blank pieces of the text between line feeds, each with undefined size and
  bold = false, and the blocks made from them are Paragraph, Bullet or Numbered blocks:
  never Heading or emphasized (bold) blocks.
\<close>

theorem fallback_page_blocks:
  assumes "chars p = []" "page_text p = Some t" "t \<noteq> []"
  shows "extract_text_with_formatting p bs = plain_lines t
     \<and> (\<forall>l \<in> set (extract_text_with_formatting p bs). font_size l = None \<and> \<not> is_bold l)
     \<and> list_all plain_kind (text_blocks bs (extract_text_with_formatting p bs))"
proof -
  have e: "extract_text_with_formatting p bs = plain_lines t"
    using assms by (simp add: extract_text_with_formatting_def)
  have "list_all plain_kind (text_blocks bs (plain_lines t))"
    unfolding text_blocks_def run_lines_def
    by (rule flush_plain, rule fold_step_plain [OF plain_lines_unformatted])
       (simp add: start_state_def)
  with e plain_lines_unformatted show ?thesis by simp
qed

theorem fallback_page_blocks_witness:
  "chars \<lparr>chars = [], page_text = Some (u ''Intro'' @ [10] @ u ''- item''), page_tables = []\<rparr> = []
   \<and> u ''Intro'' @ [10] @ u ''- item'' \<noteq> []
   \<and> list_all plain_kind
        (text_blocks (Some 12)
          (extract_text_with_formatting
             \<lparr>chars = [], page_text = Some (u ''Intro'' @ [10] @ u ''- item''), page_tables = []\<rparr>
             (Some 12)))"
proof -
  let ?t = "u ''Intro'' @ [10] @ u ''- item''"
  let ?p = "\<lparr>chars = [], page_text = Some ?t, page_tables = []\<rparr>"
  have a: "chars ?p = []" by simp
  have b: "page_text ?p = Some ?t" by simp
  have c: "?t \<noteq> []" by simp
  from fallback_page_blocks [OF a b c, of "Some 12"]
  have "list_all plain_kind (text_blocks (Some 12) (extract_text_with_formatting ?p (Some 12)))"
    by blast
  with a c show ?thesis by blast
qed

section \<open>Blank documents\<close>

lemma process_blank_page: "blank_page p \<Longrightarrow> process_page p bs = []"
  by (auto simp: blank_page_def process_page_def extract_text_with_formatting_def run_lines_def
      start_state_def flush_def table_parts_def)

lemma concat_blank_lines:
  "\<forall>x \<in> set xs. f x = [[]] \<Longrightarrow> concat (map f xs) = replicate (length xs) []"
  by (induction xs) simp_all

lemma join_blank_lines: "join [10] (replicate k []) = replicate (k - 1) 10"
proof (induction k rule: less_induct)
  case (less k)
  show ?case
  proof (cases k)
    case 0
    then show ?thesis by simp
  next
    case (Suc m)
    show ?thesis
    proof (cases m)
      case 0
      with Suc show ?thesis by simp
    next
      case (Suc j)
      have "join [10] (replicate (Suc j) []) = replicate j 10"
        using less.IH [of "Suc j"] \<open>k = Suc m\<close> Suc by simp
      then show ?thesis using \<open>k = Suc m\<close> Suc by simp
    qed
  qed
qed

lemma blank_output:
  assumes "\<forall>p \<in> set pages. blank_page p"
  shows "concat (map (page_output bs (length pages)) (zip [1 ..< Suc (length pages)] pages))
         = replicate (length pages - 1) []"
proof (cases pages rule: rev_cases)
  case Nil
  then show ?thesis by simp
next
  case (snoc ps q)
  let ?n = "length pages"
  have n: "?n = Suc (length ps)" using snoc by simp
  have pos: "1 \<le> ?n" using n by simp
  have up: "[1 ..< Suc ?n] = [1 ..< ?n] @ [?n]" using pos by (rule upt_Suc_append)
  have len: "length [1 ..< ?n] = length ps" using n by (simp del: upt_Suc)
  have z: "zip [1 ..< Suc ?n] pages = zip [1 ..< ?n] ps @ [(?n, q)]"
    unfolding up snoc using len zip_append [of "[1 ..< ?n]" ps "[?n]" "[q]"]
    by (simp add: snoc)
  have q: "page_output bs ?n (?n, q) = []"
    using assms snoc by (simp add: page_output_def process_blank_page)
  have "\<forall>x \<in> set (zip [1 ..< ?n] ps). page_output bs ?n x = [[]]"
  proof
    fix x assume x: "x \<in> set (zip [1 ..< ?n] ps)"
    obtain i p where ip: "x = (i, p)" by (cases x)
    from x ip have "i \<in> set [1 ..< ?n]" "p \<in> set ps" by (auto dest: set_zip_leftD set_zip_rightD)
    then have "i < ?n" "blank_page p" using assms snoc by auto
    then show "page_output bs ?n x = [[]]"
      by (simp add: ip page_output_def process_blank_page)
  qed
  then have "concat (map (page_output bs ?n) (zip [1 ..< ?n] ps))
             = replicate (length (zip [1 ..< ?n] ps)) []"
    by (rule concat_blank_lines)
  moreover have "length (zip [1 ..< ?n] ps) = ?n - 1"
    using len n by (simp del: upt_Suc)
  ultimately have first: "concat (map (page_output bs ?n) (zip [1 ..< ?n] ps))
             = replicate (?n - 1) []"
    by (simp only:)
  have "concat (map (page_output bs ?n) (zip [1 ..< Suc ?n] pages))
        = concat (map (page_output bs ?n) (zip [1 ..< ?n] ps)) @ page_output bs ?n (?n, q)"
    by (simp only: z map_append concat_append list.map concat.simps append_Nil2)
  then show ?thesis by (simp only: first q append_Nil2)
qed

text \<open>
  C9, as stated, fails: three blank pages give the two page separators, which join to a
  single line feed, not to the empty string.
\<close>

theorem three_blank_pages_counterexample:
  "convert_pdf_to_markdown [empty_page, empty_page, empty_page] = [10]
   \<and> convert_pdf_to_markdown [empty_page, empty_page, empty_page] \<noteq> []"
  by (simp add: convert_pdf_to_markdown_def body_size_of_def sizes_of_def page_output_def
      empty_page_def loop_defs extract_text_with_formatting_def upt_rec)

text \<open>
  C9, amended. For every document whose pages are all blank (no characters, no tables, no
  plain text), the conversion returns the joined page separators only: \<open>n - 2\<close> line feeds
  for \<open>n\<close> pages, which is the empty string for zero, one or two pages. The model has
  no failing branch on such an input.
\<close>

theorem blank_document_output:
  assumes "\<forall>p \<in> set pages. blank_page p"
  shows "convert_pdf_to_markdown pages = replicate (length pages - 2) 10
         \<and> (length pages \<le> 2 \<longrightarrow> convert_pdf_to_markdown pages = [])"
proof -
  have "convert_pdf_to_markdown pages = join [10] (replicate (length pages - 1) [])"
    using blank_output [OF assms] by (simp add: convert_pdf_to_markdown_def Let_def)
  then have "convert_pdf_to_markdown pages = replicate (length pages - 2) 10"
    by (simp add: join_blank_lines)
  then show ?thesis by simp
qed

theorem blank_document_output_witness:
  "blank_page empty_page
   \<and> convert_pdf_to_markdown [empty_page, empty_page] = []
   \<and> convert_pdf_to_markdown [] = []"
  using blank_document_output [of "[empty_page, empty_page]"] blank_document_output [of "[]"]
  by (simp add: blank_page_def empty_page_def)

section \<open>The bold flag of a line\<close>

lemma py_in_sublist: "py_in pat s = sublist pat s"
  by (induction s) (simp_all add: sublist_Cons_right)

lemma py_in_iff: "py_in pat s \<longleftrightarrow> (\<exists>a b. s = a @ pat @ b)"
  by (simp add: py_in_sublist sublist_def)

lemma group_add_keys:
  "fst ` set (group_add y c g) = insert y (fst ` set g)"
  by (induction g) force+

lemma group_add_distinct:
  "distinct (map fst g) \<Longrightarrow> distinct (map fst (group_add y c g))"
proof (induction g)
  case Nil
  show ?case by simp
next
  case (Cons e g)
  obtain k cs where e: "e = (k, cs)" by (cases e)
  show ?case
  proof (cases "k = y")
    case True
    with Cons e show ?thesis by simp
  next
    case False
    have "k \<notin> fst ` set (group_add y c g)"
      using Cons.prems e False by (simp add: group_add_keys)
    with Cons e False show ?thesis by simp
  qed
qed

lemma group_add_entries:
  "distinct (map fst g) \<Longrightarrow> (k, cs) \<in> set (group_add y c g) \<Longrightarrow>
     (k \<noteq> y \<and> (k, cs) \<in> set g)
     \<or> (k = y \<and> (\<exists>cs0. (y, cs0) \<in> set g \<and> cs = cs0 @ [c]))
     \<or> (k = y \<and> y \<notin> fst ` set g \<and> cs = [c])"
proof (induction g)
  case Nil
  then show ?case by simp
next
  case (Cons e g)
  obtain k' cs' where e: "e = (k', cs')" by (cases e)
  show ?case
  proof (cases "k' = y")
    case True
    with Cons.prems e show ?thesis by (auto simp: image_iff)
  next
    case False
    with Cons e show ?thesis by (auto simp: image_iff)
  qed
qed

lemma grouped_step:
  assumes "grouped seen g"
  shows "grouped (seen @ [c]) (group_add (line_key c) c g)"
proof -
  let ?y = "line_key c"
  from assms have d: "distinct (map fst g)" and ks: "fst ` set g = line_key ` set seen"
    and en: "\<And>k cs. (k, cs) \<in> set g \<Longrightarrow> cs = filter (\<lambda>c. line_key c = k) seen"
    by (auto simp: grouped_def)
  have "\<And>k cs. (k, cs) \<in> set (group_add ?y c g)
          \<Longrightarrow> cs = filter (\<lambda>c. line_key c = k) (seen @ [c])"
  proof -
    fix k cs assume m: "(k, cs) \<in> set (group_add ?y c g)"
    from group_add_entries [OF d m]
    consider (other) "k \<noteq> ?y" "(k, cs) \<in> set g"
      | (old) cs0 where "k = ?y" "(?y, cs0) \<in> set g" "cs = cs0 @ [c]"
      | (new) "k = ?y" "?y \<notin> fst ` set g" "cs = [c]"
      by blast
    then show "cs = filter (\<lambda>c. line_key c = k) (seen @ [c])"
    proof cases
      case other
      then show ?thesis using en by auto
    next
      case old
      then show ?thesis using en by auto
    next
      case new
      have "\<And>x. x \<in> set seen \<Longrightarrow> line_key x \<noteq> k"
      proof
        fix x assume "x \<in> set seen" "line_key x = k"
        then have "k \<in> line_key ` set seen" by (rule rev_image_eqI [OF _ sym])
        with new ks show False by simp
      qed
      then have "filter (\<lambda>c. line_key c = k) seen = []"
        by (simp add: filter_empty_conv)
      with new show ?thesis by simp
    qed
  qed
  then show ?thesis
    using d ks by (auto simp: grouped_def group_add_distinct group_add_keys)
qed

lemma grouped_fold:
  "grouped seen g \<Longrightarrow>
   grouped (seen @ cs) (fold (\<lambda>c g. group_add (py_round (get_top c)) c g) cs g)"
proof (induction cs arbitrary: seen g)
  case Nil
  then show ?case by simp
next
  case (Cons c cs)
  from grouped_step [OF Cons.prems, of c]
  have "grouped (seen @ [c]) (group_add (py_round (get_top c)) c g)"
    by (simp add: line_key_def)
  from Cons.IH [OF this] show ?case by simp
qed

lemma char_lines_grouped: "grouped cs (char_lines cs)"
  using grouped_fold [of "[]" "[]" cs] by (simp add: char_lines_def grouped_def)

lemma char_lines_entry:
  "(y, cs) \<in> set (char_lines chs) \<Longrightarrow> cs = filter (\<lambda>c. line_key c = y) chs"
  using char_lines_grouped [of chs] by (auto simp: grouped_def)

lemma make_line_bold:
  "make_line cs = Some l \<Longrightarrow> is_bold l = (\<exists>c \<in> set cs. bold_name (get_fontname c))"
  by (auto simp: make_line_def Let_def list_ex_iff split: if_splits)

text \<open>
  C7, as stated, fails: the test is for the two spellings \<open>Bold\<close> and \<open>bold\<close> only. A
  line whose only character has the font \<open>Arial-BOLD\<close> is not bold, although its font
  identifier contains \<open>bold\<close> under case-insensitive matching.
\<close>

theorem bold_casing_counterexample:
  "extract_text_with_formatting bold_upper_page (Some 12)
     = [\<lparr>l_text = u ''x'', font_size = Some 12, is_bold = False\<rparr>]
   \<and> bold_caseless (u ''Arial-BOLD'')"
  by (simp add: bold_upper_page_def extract_text_with_formatting_def char_lines_def float_defs
      get_top_def get_x0_def get_text_def get_size_def get_fontname_def make_line_def sizes_of_def
      falsy_def bold_name_def bold_caseless_def lower_def List.map_filter_def str_defs)

text \<open>
  C7, amended. Every assembled line is the line made from the characters of the page with
  one rounded top coordinate, and its bold flag is true if and only if the font identifier
  of at least one of these characters contains \<open>Bold\<close> or \<open>bold\<close> as a substring, in
  exactly one of these two casings. The lines of a page without characters are never bold.
\<close>

theorem bold_flag_exact_casing:
  assumes "l \<in> set (extract_text_with_formatting p bs)"
  shows "(chars p = [] \<and> \<not> is_bold l)
     \<or> (\<exists>y. make_line (filter (\<lambda>c. line_key c = y) (chars p)) = Some l
            \<and> is_bold l = (\<exists>c \<in> set (chars p). line_key c = y
                 \<and> (py_in (u ''Bold'') (get_fontname c) \<or> py_in (u ''bold'') (get_fontname c))))"
proof (cases "chars p = []")
  case True
  with assms have "\<not> is_bold l"
    by (auto simp: extract_text_with_formatting_def plain_lines_def split: option.splits if_splits)
  with True show ?thesis by simp
next
  case False
  with assms have "l \<in> set (List.map_filter (\<lambda>(y, cs). make_line cs) (sort_key fst (char_lines (chars p))))"
    by (auto simp: extract_text_with_formatting_def split: option.splits if_splits)
  then obtain y cs where m: "(y, cs) \<in> set (char_lines (chars p))" and ml: "make_line cs = Some l"
    by (auto simp: List.map_filter_def)
  from char_lines_entry [OF m] have cs: "cs = filter (\<lambda>c. line_key c = y) (chars p)" .
  from make_line_bold [OF ml] cs
  have "is_bold l = (\<exists>c \<in> set (chars p). line_key c = y \<and> bold_name (get_fontname c))"
    by auto
  with ml cs show ?thesis by (auto simp: bold_name_def)
qed

theorem bold_flag_exact_casing_witness:
  "\<lparr>l_text = u ''x'', font_size = Some 12, is_bold = True\<rparr>
     \<in> set (extract_text_with_formatting bold_title_page (Some 12))
   \<and> (\<exists>y. make_line (filter (\<lambda>c. line_key c = y) (chars bold_title_page))
            = Some \<lparr>l_text = u ''x'', font_size = Some 12, is_bold = True\<rparr>)"
proof -
  let ?l = "\<lparr>l_text = u ''x'', font_size = Some 12, is_bold = True\<rparr>"
  have "extract_text_with_formatting bold_title_page (Some 12) = [?l]"
    by (simp add: bold_title_page_def extract_text_with_formatting_def char_lines_def float_defs
      get_top_def get_x0_def get_text_def get_size_def get_fontname_def make_line_def sizes_of_def
      falsy_def bold_name_def List.map_filter_def str_defs)
  then have m: "?l \<in> set (extract_text_with_formatting bold_title_page (Some 12))" by simp
  have ne: "chars bold_title_page \<noteq> []" by (simp add: bold_title_page_def)
  from bold_flag_exact_casing [OF m] ne
  have "\<exists>y. make_line (filter (\<lambda>c. line_key c = y) (chars bold_title_page)) = Some ?l"
    by blast
  with m show ?thesis by blast
qed

section \<open>Numbered runs\<close>

lemma classify_numbered_iff:
  "classify bs l = CNumbered \<longleftrightarrow>
     get_heading_level (font_size l) bs = None \<and> \<not> is_bullet_list (l_text l)
     \<and> is_numbered_list (l_text l)"
  by (simp add: classify_def split: option.splits)

lemma step_numbered:
  assumes "classify bs l = CNumbered"
  shows "step bs l s =
           (flush s)\<lparr>md_parts := md_parts (flush s) @
                        [(Numbered, py_str (Suc (if current_list_type s = Some LNumbered
                                                 then numbered_counter s else 0))
                                    @ u ''. '' @ clean_numbered_text (l_text l))],
                     numbered_counter := Suc (if current_list_type s = Some LNumbered
                                              then numbered_counter s else 0),
                     current_list_type := Some LNumbered\<rparr>"
  using assms
  by (simp add: classify_numbered_iff step_def emit_def flush_def Let_def)

lemma step_not_numbered:
  "classify bs l \<noteq> CNumbered \<Longrightarrow> current_list_type (step bs l s) \<noteq> Some LNumbered"
  by (simp add: classify_def step_def emit_def flush_def Let_def split: option.splits if_splits)

lemma before_run_not_numbered:
  assumes "pre = [] \<or> classify bs (last pre) \<noteq> CNumbered"
  shows "current_list_type (fold (step bs) pre (start_state parts)) \<noteq> Some LNumbered"
proof (cases pre rule: rev_cases)
  case Nil
  then show ?thesis by (simp add: start_state_def)
next
  case (snoc ps l)
  with assms have "classify bs l \<noteq> CNumbered" by simp
  then show ?thesis using snoc by (simp add: step_not_numbered)
qed

lemma numbered_blocks_snoc:
  "numbered_blocks (ls @ [l])
     = numbered_blocks ls
       @ [(Numbered, py_str (Suc (length ls)) @ u ''. '' @ clean_numbered_text (l_text l))]"
  by (simp add: numbered_blocks_def nth_append)

lemma numbered_run:
  assumes "\<forall>l \<in> set run. classify bs l = CNumbered" "run \<noteq> []"
    "current_list_type s \<noteq> Some LNumbered"
  shows "fold (step bs) run s =
           (flush s)\<lparr>md_parts := md_parts (flush s) @ numbered_blocks run,
                     numbered_counter := length run,
                     current_list_type := Some LNumbered\<rparr>"
  using assms
proof (induction run rule: rev_induct)
  case Nil
  then show ?case by simp
next
  case (snoc l run)
  have l: "classify bs l = CNumbered" using snoc.prems by simp
  show ?case
  proof (cases "run = []")
    case True
    then show ?thesis
      using snoc.prems(3) by (simp add: step_numbered [OF l] numbered_blocks_def)
  next
    case False
    let ?s' = "fold (step bs) run s"
    have s': "?s' = (flush s)\<lparr>md_parts := md_parts (flush s) @ numbered_blocks run,
                     numbered_counter := length run,
                     current_list_type := Some LNumbered\<rparr>"
      using snoc False by simp
    have pl: "paragraph_lines (flush s) = []" by (simp add: flush_def)
    have fl: "flush ?s' = ?s'" by (simp add: s' flush_def pl)
    have "fold (step bs) (run @ [l]) s = step bs l ?s'" by simp
    also have "\<dots> = ?s'\<lparr>md_parts := md_parts ?s' @
                        [(Numbered, py_str (Suc (length run)) @ u ''. '' @ clean_numbered_text (l_text l))],
                     numbered_counter := Suc (length run),
                     current_list_type := Some LNumbered\<rparr>"
      unfolding step_numbered [OF l] fl by (simp add: s')
    also have "\<dots> = (flush s)\<lparr>md_parts := md_parts (flush s) @ numbered_blocks (run @ [l]),
                     numbered_counter := length (run @ [l]),
                     current_list_type := Some LNumbered\<rparr>"
      by (simp add: s' numbered_blocks_snoc)
    finally show ?thesis .
  qed
qed

lemma md_parts_suffix:
  "md_parts (run_lines bs ls s) = md_parts s @ md_parts (run_lines bs ls (s\<lparr>md_parts := []\<rparr>))"
proof -
  have "s = (s\<lparr>md_parts := []\<rparr>)\<lparr>md_parts := md_parts s @ md_parts (s\<lparr>md_parts := []\<rparr>)\<rparr>"
    by simp
  then have "run_lines bs ls s
     = (run_lines bs ls (s\<lparr>md_parts := []\<rparr>))
         \<lparr>md_parts := md_parts s @ md_parts (run_lines bs ls (s\<lparr>md_parts := []\<rparr>))\<rparr>"
    unfolding run_lines_def using fold_step_prefix flush_prefix by metis
  then show ?thesis by simp
qed

text \<open>
  C1. For every page and every run of lines that take the numbered branch, starting at
  the top of the page or after a line that takes another branch, the blocks emitted for
  the run are Numbered blocks with the ordinals 1, 2, ..., in order, each followed by the
  cleaned text of its line: the ordinal is the counter, which restarts from 0 when the
  current list type is not numbered and is incremented before each block, and does not
  depend on the numeral in the line. They follow the blocks of the lines before the run
  (a pending paragraph included), and the loop continues with the counter at the length of
  the run.
\<close>

theorem numbered_run_ordinals:
  assumes "extract_text_with_formatting p bs = pre @ run @ post" "run \<noteq> []"
    "\<forall>l \<in> set run. classify bs l = CNumbered"
    "pre = [] \<or> classify bs (last pre) \<noteq> CNumbered"
  shows "process_page p bs
           = table_parts (page_tables p) @ text_blocks bs pre @ numbered_blocks run
             @ md_parts (run_lines bs post
                  \<lparr>md_parts = [], current_list_type = Some LNumbered,
                   numbered_counter = length run, paragraph_lines = []\<rparr>)"
proof -
  let ?s1 = "fold (step bs) pre (start_state [])"
  let ?s2 = "fold (step bs) run ?s1"
  have c: "current_list_type ?s1 \<noteq> Some LNumbered"
    using assms(4) by (rule before_run_not_numbered)
  have s2: "?s2 = (flush ?s1)\<lparr>md_parts := md_parts (flush ?s1) @ numbered_blocks run,
                     numbered_counter := length run,
                     current_list_type := Some LNumbered\<rparr>"
    using assms(3,2) c by (rule numbered_run)
  have pl: "paragraph_lines (flush ?s1) = []" by (simp add: flush_def)
  have m2: "md_parts ?s2 = text_blocks bs pre @ numbered_blocks run"
    by (simp add: s2 text_blocks_def run_lines_def)
  have r2: "?s2\<lparr>md_parts := []\<rparr>
            = \<lparr>md_parts = [], current_list_type = Some LNumbered,
               numbered_counter = length run, paragraph_lines = []\<rparr>"
    by (simp add: s2 pl)
  have "text_blocks bs (pre @ run @ post) = md_parts (run_lines bs post ?s2)"
    by (simp add: text_blocks_def run_lines_def)
  also have "\<dots> = md_parts ?s2 @ md_parts (run_lines bs post (?s2\<lparr>md_parts := []\<rparr>))"
    by (rule md_parts_suffix)
  finally have "text_blocks bs (pre @ run @ post)
      = text_blocks bs pre @ numbered_blocks run
        @ md_parts (run_lines bs post
                  \<lparr>md_parts = [], current_list_type = Some LNumbered,
                   numbered_counter = length run, paragraph_lines = []\<rparr>)"
    by (simp only: m2 r2 append_assoc)
  then show ?thesis by (simp add: process_page_split assms(1))
qed

lemma numbered_page_lines:
  "extract_text_with_formatting numbered_page (Some 12)
     = [plain_line ''Intro''] @ [plain_line ''1. First'', plain_line ''3. Second'', plain_line ''7. Third''] @ []"
  by (simp add: numbered_page_def extract_text_with_formatting_def plain_lines_def plain_line_def
      str_defs)

lemma plain_line_classes:
  "classify (Some 12) (plain_line ''Intro'') = CParagraph"
  "classify (Some 12) (plain_line ''1. First'') = CNumbered"
  "classify (Some 12) (plain_line ''3. Second'') = CNumbered"
  "classify (Some 12) (plain_line ''7. Third'') = CNumbered"
  by (simp_all add: classify_def plain_line_def get_heading_level_def falsy_def pattern_defs str_defs)

theorem numbered_run_ordinals_witness:
  "extract_text_with_formatting numbered_page (Some 12)
     = [plain_line ''Intro''] @ [plain_line ''1. First'', plain_line ''3. Second'', plain_line ''7. Third''] @ []
   \<and> process_page numbered_page (Some 12)
     = [(Paragraph, u ''Intro''), (Numbered, u ''1. First''), (Numbered, u ''2. Second''),
        (Numbered, u ''3. Third'')]"
proof -
  let ?run = "[plain_line ''1. First'', plain_line ''3. Second'', plain_line ''7. Third'']"
  have a: "?run \<noteq> []" by simp
  have b: "\<forall>l \<in> set ?run. classify (Some 12) l = CNumbered"
    by (simp add: plain_line_classes)
  have c: "[plain_line ''Intro''] = [] \<or> classify (Some 12) (last [plain_line ''Intro'']) \<noteq> CNumbered"
    by (simp add: plain_line_classes)
  have t: "table_parts (page_tables numbered_page) = []"
    by (simp add: numbered_page_def table_parts_def)
  have p: "text_blocks (Some 12) [plain_line ''Intro''] = [(Paragraph, u ''Intro'')]"
    by (simp add: plain_line_def loop_defs pattern_defs str_defs)
  have n: "numbered_blocks ?run = [(Numbered, u ''1. First''), (Numbered, u ''2. Second''),
        (Numbered, u ''3. Third'')]"
    by (simp add: numbered_blocks_def plain_line_def upt_rec py_str.simps pattern_defs str_defs)
  have r: "md_parts (run_lines (Some 12) []
                  \<lparr>md_parts = [], current_list_type = Some LNumbered,
                   numbered_counter = length ?run, paragraph_lines = []\<rparr>) = []"
    by (simp add: run_lines_def flush_def)
  from numbered_run_ordinals [OF numbered_page_lines a b c]
  show ?thesis by (simp only: numbered_page_lines t p n r append_Nil append_Nil2 append_Cons simp_thms)
qed

section \<open>Paragraph runs\<close>

lemma step_not_paragraph_flushes:
  "classify bs l \<noteq> CParagraph \<Longrightarrow> paragraph_lines (step bs l s) = []"
  by (simp add: classify_def step_def emit_def flush_def Let_def split: option.splits if_splits)

lemma before_run_no_pending:
  assumes "pre = [] \<or> classify bs (last pre) \<noteq> CParagraph"
  shows "paragraph_lines (fold (step bs) pre (start_state parts)) = []"
proof (cases pre rule: rev_cases)
  case Nil
  then show ?thesis by (simp add: start_state_def)
next
  case (snoc ps l)
  with assms have "classify bs l \<noteq> CParagraph" by simp
  then show ?thesis using snoc by (simp add: step_not_paragraph_flushes)
qed

lemma step_paragraph:
  "classify bs l = CParagraph \<Longrightarrow>
   step bs l s = s\<lparr>current_list_type := None, paragraph_lines := paragraph_lines s @ [l_text l]\<rparr>"
  by (auto simp: classify_def step_def Let_def split: option.splits if_splits)

lemma paragraph_run:
  assumes "\<forall>l \<in> set run. classify bs l = CParagraph" "run \<noteq> []"
  shows "fold (step bs) run s
         = s\<lparr>current_list_type := None, paragraph_lines := paragraph_lines s @ map l_text run\<rparr>"
  using assms
proof (induction run rule: rev_induct)
  case Nil
  then show ?case by simp
next
  case (snoc l run)
  have l: "classify bs l = CParagraph" using snoc.prems by simp
  show ?case
  proof (cases "run = []")
    case True
    then show ?thesis by (simp add: step_paragraph [OF l])
  next
    case False
    with snoc have "fold (step bs) run s
         = s\<lparr>current_list_type := None, paragraph_lines := paragraph_lines s @ map l_text run\<rparr>"
      by simp
    then show ?thesis by (simp add: step_paragraph [OF l])
  qed
qed

lemma same_output_flush: "same_output s t \<Longrightarrow> same_output (flush s) (flush t)"
  by (simp add: same_output_def flush_def)

lemma same_output_step: "same_output s t \<Longrightarrow> same_output (step bs l s) (step bs l t)"
  by (simp add: same_output_def step_def emit_def flush_def Let_def split: option.splits)

lemma same_output_fold:
  "same_output s t \<Longrightarrow> same_output (fold (step bs) ls s) (fold (step bs) ls t)"
  by (induction ls arbitrary: s t) (simp_all add: same_output_step)

lemma same_output_run_lines:
  "same_output s t \<Longrightarrow> md_parts (run_lines bs ls s) = md_parts (run_lines bs ls t)"
  using same_output_flush [OF same_output_fold, of s t bs ls]
  by (simp add: run_lines_def same_output_def)

lemma flush_idem: "flush (flush s) = flush s"
  by (simp add: flush_def)

lemma step_flush_first:
  "classify bs l \<noteq> CParagraph \<Longrightarrow> step bs l (flush s) = step bs l s"
  by (simp add: classify_def step_def emit_def flush_def Let_def split: option.splits if_splits)

lemma run_lines_flush_first:
  assumes "post = [] \<or> classify bs (hd post) \<noteq> CParagraph"
  shows "run_lines bs post (flush s) = run_lines bs post s"
proof (cases post)
  case Nil
  then show ?thesis by (simp add: run_lines_def flush_idem)
next
  case (Cons l ls)
  with assms have "classify bs l \<noteq> CParagraph" by simp
  then show ?thesis using Cons by (simp add: run_lines_def step_flush_first)
qed

lemma paragraph_run_blocks:
  assumes "run \<noteq> []" "\<forall>l \<in> set run. classify bs l = CParagraph"
    "pre = [] \<or> classify bs (last pre) \<noteq> CParagraph"
    "post = [] \<or> classify bs (hd post) \<noteq> CParagraph"
  shows "text_blocks bs (pre @ run @ post)
         = text_blocks bs pre @ [(Paragraph, join [32] (map l_text run))] @ text_blocks bs post"
proof -
  let ?s1 = "fold (step bs) pre (start_state [])"
  let ?s2 = "fold (step bs) run ?s1"
  let ?P = "(Paragraph, join [32] (map l_text run))"
  have p1: "paragraph_lines ?s1 = []" using assms(3) by (rule before_run_no_pending)
  then have m1: "text_blocks bs pre = md_parts ?s1"
    by (simp add: text_blocks_def run_lines_def flush_def)
  have s2: "?s2 = ?s1\<lparr>current_list_type := None,
                       paragraph_lines := paragraph_lines ?s1 @ map l_text run\<rparr>"
    using assms(2,1) by (rule paragraph_run)
  have fl: "flush ?s2 = ?s1\<lparr>current_list_type := None, md_parts := md_parts ?s1 @ [?P],
                              paragraph_lines := []\<rparr>"
    unfolding s2 using assms(1) by (simp add: p1 flush_def)
  have f2: "same_output (flush ?s2) (start_state (md_parts ?s1 @ [?P]))"
    unfolding fl by (simp add: same_output_def start_state_def)
  have "text_blocks bs (pre @ run @ post) = md_parts (run_lines bs post ?s2)"
    by (simp add: text_blocks_def run_lines_def)
  also have "\<dots> = md_parts (run_lines bs post (flush ?s2))"
    using run_lines_flush_first [OF assms(4)] by simp
  also have "\<dots> = md_parts (run_lines bs post (start_state (md_parts ?s1 @ [?P])))"
    using f2 by (rule same_output_run_lines)
  also have "\<dots> = (md_parts ?s1 @ [?P]) @ text_blocks bs post"
    by (rule run_lines_prefix)
  finally show ?thesis by (simp add: m1)
qed

lemma list_kinds_flush: "list_kinds (md_parts (flush s)) = list_kinds (md_parts s)"
  by (simp add: flush_def list_kinds_def list_kind_def)

lemma list_kinds_step:
  "list_kinds (md_parts (step bs l s)) = list_kinds (md_parts s) @ list_line_kinds bs [l]"
  by (simp add: step_def emit_def flush_def Let_def list_kinds_def list_kind_def
      list_line_kinds_def classify_def split: option.splits)

lemma list_kinds_fold:
  "list_kinds (md_parts (fold (step bs) ls s)) = list_kinds (md_parts s) @ list_line_kinds bs ls"
proof (induction ls arbitrary: s)
  case Nil
  show ?case by (simp add: list_line_kinds_def)
next
  case (Cons l ls)
  have "list_line_kinds bs (l # ls) = list_line_kinds bs [l] @ list_line_kinds bs ls"
    by (simp add: list_line_kinds_def)
  then show ?case by (simp add: Cons.IH list_kinds_step)
qed

lemma list_kinds_text_blocks: "list_kinds (text_blocks bs ls) = list_line_kinds bs ls"
proof -
  have "list_kinds (md_parts (start_state [])) = []"
    by (simp add: list_kinds_def start_state_def)
  then show ?thesis
    by (simp add: text_blocks_def run_lines_def list_kinds_flush list_kinds_fold)
qed

text \<open>
  C2. For every page, the list blocks are one per line that takes the bullet or numbered
  branch, in the order of the lines: list lines are never merged. And a maximal run of
  \<open>N\<close> lines that take the paragraph branch (at the top of the page or after a line of
  another branch, and up to the end of the page or a line of another branch) produces
  exactly one Paragraph block, whose text is the \<open>N\<close> line texts joined by single
  spaces: the blocks of the page are the table blocks, the blocks of the lines before the
  run, this one block, and the blocks of the lines after the run. So the pending lines
  are flushed by the line of another branch that ends the run or by the end of the page,
  and not inside the run.
\<close>

theorem paragraph_run_one_block:
  "list_kinds (process_page p bs) = list_line_kinds bs (extract_text_with_formatting p bs)
   \<and> (\<forall>pre run post.
         extract_text_with_formatting p bs = pre @ run @ post \<and> run \<noteq> []
         \<and> (\<forall>l \<in> set run. classify bs l = CParagraph)
         \<and> (pre = [] \<or> classify bs (last pre) \<noteq> CParagraph)
         \<and> (post = [] \<or> classify bs (hd post) \<noteq> CParagraph)
         \<longrightarrow> process_page p bs
               = table_parts (page_tables p) @ text_blocks bs pre
                 @ [(Paragraph, join [32] (map l_text run))] @ text_blocks bs post)"
proof (intro conjI allI impI)
  have "list_kinds (table_parts (page_tables p)) = []"
    by (simp add: list_kinds_def table_parts_def list_kind_def filter_empty_conv)
  then show "list_kinds (process_page p bs)
             = list_line_kinds bs (extract_text_with_formatting p bs)"
    using list_kinds_text_blocks [of bs "extract_text_with_formatting p bs"]
    by (simp add: process_page_split list_kinds_def)
next
  fix pre run post
  assume h: "extract_text_with_formatting p bs = pre @ run @ post \<and> run \<noteq> []
         \<and> (\<forall>l \<in> set run. classify bs l = CParagraph)
         \<and> (pre = [] \<or> classify bs (last pre) \<noteq> CParagraph)
         \<and> (post = [] \<or> classify bs (hd post) \<noteq> CParagraph)"
  then have e: "extract_text_with_formatting p bs = pre @ run @ post" and r: "run \<noteq> []"
    and a: "\<forall>l \<in> set run. classify bs l = CParagraph"
    and b: "pre = [] \<or> classify bs (last pre) \<noteq> CParagraph"
    and c: "post = [] \<or> classify bs (hd post) \<noteq> CParagraph"
    by blast+
  show "process_page p bs
          = table_parts (page_tables p) @ text_blocks bs pre
            @ [(Paragraph, join [32] (map l_text run))] @ text_blocks bs post"
    using paragraph_run_blocks [OF r a b c] by (simp add: process_page_split e)
qed

lemma paragraph_page_lines:
  "extract_text_with_formatting paragraph_page (Some 12)
     = [plain_line ''- a''] @ [plain_line ''foo'', plain_line ''bar''] @ [plain_line ''1. x'']"
  by (simp add: paragraph_page_def extract_text_with_formatting_def plain_lines_def plain_line_def
      str_defs)

lemma paragraph_page_classes:
  "classify (Some 12) (plain_line ''- a'') = CBullet"
  "classify (Some 12) (plain_line ''- b'') = CBullet"
  "classify (Some 12) (plain_line ''foo'') = CParagraph"
  "classify (Some 12) (plain_line ''bar'') = CParagraph"
  "classify (Some 12) (plain_line ''1. x'') = CNumbered"
  by (simp_all add: classify_def plain_line_def get_heading_level_def falsy_def pattern_defs str_defs)

lemma list_page_lines:
  "extract_text_with_formatting list_page (Some 12) = [plain_line ''- a'', plain_line ''- b'']"
  by (simp add: list_page_def extract_text_with_formatting_def plain_lines_def plain_line_def
      str_defs)

theorem paragraph_run_one_block_witness:
  "extract_text_with_formatting paragraph_page (Some 12)
     = [plain_line ''- a''] @ [plain_line ''foo'', plain_line ''bar''] @ [plain_line ''1. x'']
   \<and> process_page paragraph_page (Some 12)
     = [(Bullet, u ''- a''), (Paragraph, u ''foo bar''), (Numbered, u ''1. x'')]
   \<and> list_kinds (process_page paragraph_page (Some 12)) = [Bullet, Numbered]
   \<and> list_kinds (process_page list_page (Some 12)) = [Bullet, Bullet]"
proof -
  let ?run = "[plain_line ''foo'', plain_line ''bar'']"
  have a: "?run \<noteq> []" by simp
  have b: "\<forall>l \<in> set ?run. classify (Some 12) l = CParagraph"
    by (simp add: paragraph_page_classes)
  have c: "[plain_line ''- a''] = [] \<or> classify (Some 12) (last [plain_line ''- a'']) \<noteq> CParagraph"
    by (simp add: paragraph_page_classes)
  have d: "[plain_line ''1. x''] = [] \<or> classify (Some 12) (hd [plain_line ''1. x'']) \<noteq> CParagraph"
    by (simp add: paragraph_page_classes)
  have t: "table_parts (page_tables paragraph_page) = []"
    by (simp add: paragraph_page_def table_parts_def)
  have p: "text_blocks (Some 12) [plain_line ''- a''] = [(Bullet, u ''- a'')]"
    by (simp add: plain_line_def loop_defs pattern_defs str_defs)
  have q: "text_blocks (Some 12) [plain_line ''1. x''] = [(Numbered, u ''1. x'')]"
    by (simp add: plain_line_def loop_defs pattern_defs str_defs py_str.simps)
  have j: "join [32] (map l_text ?run) = u ''foo bar''"
    by (simp add: plain_line_def u_def)
  have k: "list_line_kinds (Some 12) ([plain_line ''- a''] @ ?run @ [plain_line ''1. x''])
           = [Bullet, Numbered]"
    by (simp add: list_line_kinds_def paragraph_page_classes)
  have k': "list_line_kinds (Some 12) [plain_line ''- a'', plain_line ''- b''] = [Bullet, Bullet]"
    by (simp add: list_line_kinds_def paragraph_page_classes)
  note w = paragraph_run_one_block [of paragraph_page "Some 12"]
  note v = paragraph_run_one_block [of list_page "Some 12"]
  from w [THEN conjunct2, rule_format,
      OF conjI [OF paragraph_page_lines conjI [OF a conjI [OF b conjI [OF c d]]]]]
  have "process_page paragraph_page (Some 12)
          = [(Bullet, u ''- a''), (Paragraph, u ''foo bar''), (Numbered, u ''1. x'')]"
    by (simp only: t p q j append_Nil append_Cons)
  moreover from w [THEN conjunct1]
  have "list_kinds (process_page paragraph_page (Some 12)) = [Bullet, Numbered]"
    by (simp only: paragraph_page_lines k)
  moreover from v [THEN conjunct1]
  have "list_kinds (process_page list_page (Some 12)) = [Bullet, Bullet]"
    by (simp only: list_page_lines k')
  ultimately show ?thesis using paragraph_page_lines by (intro conjI)
qed

end
